theory Spec2Isabelle
  imports Main "HOL-Library.Char_ord" "HOL-Library.List_Lexorder" "HOL-Library.Multiset" "HOL-Library.Sublist"
begin

section \<open>Data model of \<open>src/index.ts\<close>\<close>

text \<open>
  \<open>ThreadSortableItem\<close> has a required \<open>id\<close> and two optional string fields,
  \<open>parent\<close> and \<open>order\<close>.  An absent (\<open>undefined\<close>) field is \<open>None\<close>.  The
  field names carry the prefix \<open>item_\<close> because \<open>id\<close> and \<open>order\<close> already
  name a HOL constant and a HOL class.  Strings are \<open>char list\<close>; the
  order on them (\<open>HOL-Library.List_Lexorder\<close> over \<open>HOL-Library.Char_ord\<close>) is the
  lexicographic order on character codes, with a proper prefix below its extensions.
\<close>

record ThreadSortableItem =
  item_id :: string
  item_parent :: "string option"
  item_order :: "string option"

record ThreadSortOptions =
  endOfRecord :: string
  delimiter :: string

definition defaults :: ThreadSortOptions where
  "defaults = \<lparr>endOfRecord = ''.'', delimiter = ''/''\<rparr>"

datatype error = CommentParentNotFound

section \<open>JavaScript string and number primitives used by the code\<close>

text \<open>\<open>!!s\<close> on an optional string: \<open>undefined\<close> and the empty string are falsy.\<close>

definition truthy :: "string option \<Rightarrow> bool" where
  "truthy s = (case s of None \<Rightarrow> False | Some t \<Rightarrow> t \<noteq> [])"

definition endsWith :: "string \<Rightarrow> string \<Rightarrow> bool" where
  "endsWith t e = (length e \<le> length t \<and> drop (length t - length e) t = e)"

text \<open>
  \<open>String.prototype.split\<close> with a string separator.  An empty separator cuts the
  string into its characters (and the empty string into no piece at all); otherwise
  the pieces between the occurrences of the separator are returned, so that the
  empty string yields one empty piece.
\<close>

function split_from :: "string \<Rightarrow> string \<Rightarrow> string \<Rightarrow> string list" where
  "split_from sep cur [] = [rev cur]"
| "split_from sep cur (c # s) =
     (if sep \<noteq> [] \<and> take (length sep) (c # s) = sep
      then rev cur # split_from sep [] (drop (length sep) (c # s))
      else split_from sep (c # cur) s)"
  by pat_completeness auto
termination
  by (relation "measure (\<lambda>(sep, cur, s). length s)") auto

definition split_js :: "string \<Rightarrow> string \<Rightarrow> string list" where
  "split_js sep s = (if sep = [] then map (\<lambda>c. [c]) s else split_from sep [] s)"

text \<open>
  JavaScript numbers, as far as this code uses them: \<open>NaN\<close> or an integer.  The
  integers are exact here; a JavaScript double is exact up to \<open>2^53\<close>, which is ten
  base-36 digits.
\<close>

datatype number = NaN | Num int

definition isWhiteSpace :: "char \<Rightarrow> bool" where
  "isWhiteSpace c = (of_char c \<in> {9, 10, 11, 12, 13, 32 :: nat})"

definition digitValue36 :: "char \<Rightarrow> nat option" where
  "digitValue36 c =
     (let k = (of_char c :: nat) in
      if 48 \<le> k \<and> k \<le> 57 then Some (k - 48)
      else if 97 \<le> k \<and> k \<le> 122 then Some (k - 87)
      else if 65 \<le> k \<and> k \<le> 90 then Some (k - 55)
      else None)"

text \<open>
  \<open>Number.parseInt(s, 36)\<close>: leading white space is skipped, one sign is read, then
  the longest run of base-36 digits; no digit at all gives \<open>NaN\<close>.
\<close>

definition parseInt36 :: "string \<Rightarrow> number" where
  "parseInt36 s =
     (let s1 = dropWhile isWhiteSpace s;
          neg = (case s1 of [] \<Rightarrow> False | c # _ \<Rightarrow> c = CHR ''-'');
          s2 = (case s1 of [] \<Rightarrow> [] | c # r \<Rightarrow> if c = CHR ''-'' \<or> c = CHR ''+'' then r else s1);
          ds = takeWhile (\<lambda>c. digitValue36 c \<noteq> None) s2;
          v = foldl (\<lambda>a c. 36 * a + (case digitValue36 c of None \<Rightarrow> 0 | Some d \<Rightarrow> int d)) 0 ds
      in if ds = [] then NaN else Num (if neg then - v else v))"

text \<open>\<open>++n\<close>.\<close>

definition increment :: "number \<Rightarrow> number" where
  "increment n = (case n of NaN \<Rightarrow> NaN | Num i \<Rightarrow> Num (i + 1))"

definition digit36 :: "nat \<Rightarrow> char" where
  "digit36 d = ''0123456789abcdefghijklmnopqrstuvwxyz'' ! d"

function natToString36 :: "nat \<Rightarrow> string" where
  "natToString36 n = (if n < 36 then [digit36 n] else natToString36 (n div 36) @ [digit36 (n mod 36)])"
  by pat_completeness auto
termination
  by (relation "measure id") auto

declare natToString36.simps [simp del]

text \<open>\<open>Number.prototype.toString(36)\<close>.\<close>

definition toString36 :: "number \<Rightarrow> string" where
  "toString36 n =
     (case n of NaN \<Rightarrow> ''NaN''
      | Num i \<Rightarrow> if i < 0 then CHR ''-'' # natToString36 (nat (- i)) else natToString36 (nat i))"

text \<open>\<open>s.padStart(k, '0')\<close>.\<close>

definition padStart0 :: "nat \<Rightarrow> string \<Rightarrow> string" where
  "padStart0 k s = replicate (k - length s) CHR ''0'' @ s"

text \<open>
  \<open>a.localeCompare(b)\<close>, taken as the comparison of the strings by character code.
  On the key alphabet (\<open>.\<close>, \<open>/\<close>, digits, lower-case letters) the default collation
  has the same order.
\<close>

definition localeCompare :: "string \<Rightarrow> string \<Rightarrow> int" where
  "localeCompare a b = (if a < b then - 1 else if a = b then 0 else 1)"

text \<open>
  \<open>Array.prototype.sort\<close> and \<open>toSorted\<close> with a comparator are stable: elements that
  compare equal keep their order.  The stable insertion sort below gives the one
  result every stable sort gives when the comparator is a consistent ordering.
\<close>

fun insert_cmp :: "('a \<Rightarrow> 'a \<Rightarrow> int) \<Rightarrow> 'a \<Rightarrow> 'a list \<Rightarrow> 'a list" where
  "insert_cmp cmp x [] = [x]"
| "insert_cmp cmp x (y # ys) = (if cmp x y \<le> 0 then x # y # ys else y # insert_cmp cmp x ys)"

definition sort_cmp :: "('a \<Rightarrow> 'a \<Rightarrow> int) \<Rightarrow> 'a list \<Rightarrow> 'a list" where
  "sort_cmp cmp xs = foldr (insert_cmp cmp) xs []"

text \<open>\<open>Array.prototype.find\<close>, and the position of what it finds.\<close>

fun find_js :: "('a \<Rightarrow> bool) \<Rightarrow> 'a list \<Rightarrow> 'a option" where
  "find_js p [] = None"
| "find_js p (x # xs) = (if p x then Some x else find_js p xs)"

fun findIndex :: "('a \<Rightarrow> bool) \<Rightarrow> 'a list \<Rightarrow> nat option" where
  "findIndex p [] = None"
| "findIndex p (x # xs) = (if p x then Some 0 else map_option Suc (findIndex p xs))"

text \<open>
  An \<open>undefined\<close> value that is concatenated or parsed becomes the string
  \<open>undefined\<close>; \<open>parts[i]\<close> out of range reads \<open>undefined\<close>.
\<close>

definition string_of :: "string option \<Rightarrow> string" where
  "string_of s = (case s of None \<Rightarrow> ''undefined'' | Some t \<Rightarrow> t)"

definition part_string :: "string list \<Rightarrow> int \<Rightarrow> string" where
  "part_string parts i = string_of (if 0 \<le> i \<and> nat i < length parts then Some (parts ! nat i) else None)"

section \<open>The closures of \<open>sortThread\<close>\<close>

definition stripEor :: "ThreadSortOptions \<Rightarrow> string option \<Rightarrow> string option" where
  "stripEor opt thread =
     (case thread of
        None \<Rightarrow> None
      | Some t \<Rightarrow> if t \<noteq> [] \<and> endsWith t (endOfRecord opt) then Some (butlast t) else Some t)"

definition compareThread :: "ThreadSortableItem \<Rightarrow> ThreadSortableItem \<Rightarrow> int" where
  "compareThread a b =
     (case (item_order a, item_order b) of
        (Some x, Some y) \<Rightarrow> localeCompare x y
      | _ \<Rightarrow> 0)"

text \<open>\<open>.toSorted(compareThread).pop()?.order\<close>.\<close>

definition pop_order :: "ThreadSortableItem list \<Rightarrow> string option" where
  "pop_order xs = (case sort_cmp compareThread xs of [] \<Rightarrow> None | y # ys \<Rightarrow> item_order (last (y # ys)))"

definition getMaxThread :: "ThreadSortableItem list \<Rightarrow> string option" where
  "getMaxThread items = pop_order (filter (\<lambda>t. truthy (item_order t)) items)"

definition getMaxThreadPerThread :: "ThreadSortableItem list \<Rightarrow> string \<Rightarrow> string option" where
  "getMaxThreadPerThread items ident =
     pop_order (filter (\<lambda>i. item_parent i = Some ident \<and> truthy (item_order i)) items)"

text \<open>
  \<open>setThread(c, thread)\<close> writes the field of the object \<open>c\<close>.  The objects of the
  array are distinct, so the object is its position in the array.
\<close>

definition setThread :: "ThreadSortableItem list \<Rightarrow> nat \<Rightarrow> string \<Rightarrow> ThreadSortableItem list" where
  "setThread items c thread = items[c := (items ! c)\<lparr>item_order := Some thread\<rparr>]"

text \<open>The last line of the assignment: \<open>prefix + (++n).toString(36).padStart(2, '0') + opt.endOfRecord\<close>.\<close>

definition threadString :: "ThreadSortOptions \<Rightarrow> string \<Rightarrow> number \<Rightarrow> string" where
  "threadString opt pfx n = pfx @ padStart0 2 (toString36 (increment n)) @ endOfRecord opt"

text \<open>The root branch, lines 49 to 52: \<open>n\<close> from the maximum thread of the collection.\<close>

definition rootNumber :: "ThreadSortOptions \<Rightarrow> ThreadSortableItem list \<Rightarrow> number" where
  "rootNumber opt items =
     (let max = stripEor opt (getMaxThread items);
          parts = (case max of None \<Rightarrow> [] | Some m \<Rightarrow> split_js (delimiter opt) m)
      in if truthy max then parseInt36 (part_string parts 0) else Num (- 1))"

text \<open>The child branch, lines 70 to 86: \<open>n\<close> from the maximum thread among the
  keyed items with the same \<open>parent\<close> field.\<close>

definition childNumber :: "ThreadSortOptions \<Rightarrow> ThreadSortableItem list \<Rightarrow> string \<Rightarrow> number" where
  "childNumber opt items pid =
     (case stripEor opt (getMaxThreadPerThread items pid) of
        None \<Rightarrow> Num (- 1)
      | Some max1 \<Rightarrow>
          (let max = stripEor opt (Some max1);
               parts = (case max of None \<Rightarrow> [] | Some m \<Rightarrow> split_js (delimiter opt) m);
               parent_depth = int (length parts)
           in parseInt36 (part_string parts (parent_depth - 1))))"

text \<open>The thread string of a child, lines 67 to 89: the prefix is the thread of the
  parent object without its end of record, then the delimiter.\<close>

definition childThread :: "ThreadSortOptions \<Rightarrow> ThreadSortableItem list \<Rightarrow> nat \<Rightarrow> string \<Rightarrow> string" where
  "childThread opt items parent pid =
     threadString opt (string_of (stripEor opt (item_order (items ! parent))) @ delimiter opt)
       (childNumber opt items pid)"

text \<open>The thread string of a root, lines 49 to 52 and 89.\<close>

definition rootThread :: "ThreadSortOptions \<Rightarrow> ThreadSortableItem list \<Rightarrow> string" where
  "rootThread opt items = threadString opt [] (rootNumber opt items)"

text \<open>
  \<open>populateThreadForItem(c)\<close>, with \<open>c\<close> the position of the object in \<open>items\<close>.
  The result is \<open>None\<close> when the recursion on the parent never returns, \<open>Some (Inl e)\<close>
  when the error is thrown, and \<open>Some (Inr items')\<close> with the collection after the
  writes otherwise.
\<close>

partial_function (option) populateThreadForItem ::
  "ThreadSortOptions \<Rightarrow> ThreadSortableItem list \<Rightarrow> nat \<Rightarrow> (error + ThreadSortableItem list) option" where
  "populateThreadForItem opt items c =
     (case item_order (items ! c) of
        Some thread \<Rightarrow> Some (Inr items)
      | None \<Rightarrow>
          (case item_parent (items ! c) of
             None \<Rightarrow> Some (Inr (setThread items c (rootThread opt items)))
           | Some pid \<Rightarrow>
               if find_js (\<lambda>i. item_id i = pid) items = None
               then Some (Inr (setThread items c (rootThread opt items)))
               else
                 (case findIndex (\<lambda>i. item_id i = pid) items of
                    None \<Rightarrow> Some (Inl CommentParentNotFound)
                  | Some parent \<Rightarrow>
                      Option.bind (populateThreadForItem opt items parent)
                        (\<lambda>r. case r of
                               Inl e \<Rightarrow> Some (Inl e)
                             | Inr items' \<Rightarrow>
                                 Some (Inr (setThread items' c (childThread opt items' parent pid)))))))"

declare populateThreadForItem.simps [code]

text \<open>The loop \<open>for (const c of items) populateThreadForItem(c)\<close>, over the positions.\<close>

fun populateAll ::
  "ThreadSortOptions \<Rightarrow> nat list \<Rightarrow> ThreadSortableItem list \<Rightarrow> (error + ThreadSortableItem list) option" where
  "populateAll opt [] items = Some (Inr items)"
| "populateAll opt (c # cs) items =
     Option.bind (populateThreadForItem opt items c)
       (\<lambda>r. case r of Inl e \<Rightarrow> Some (Inl e) | Inr items' \<Rightarrow> populateAll opt cs items')"

definition sortThread ::
  "ThreadSortOptions \<Rightarrow> ThreadSortableItem list \<Rightarrow> (error + ThreadSortableItem list) option" where
  "sortThread opt items =
     Option.bind (populateAll opt [0..<length items] items)
       (\<lambda>r. case r of Inl e \<Rightarrow> Some (Inl e) | Inr items' \<Rightarrow> Some (Inr (sort_cmp compareThread items')))"

section \<open>\<open>formatThread\<close>\<close>

text \<open>\<open>indented.join('\n')\<close>.\<close>

fun join_js :: "string \<Rightarrow> string list \<Rightarrow> string" where
  "join_js sep [] = []"
| "join_js sep [x] = x"
| "join_js sep (x # y # ys) = x @ sep @ join_js sep (y # ys)"

definition formatLine :: "ThreadSortableItem \<Rightarrow> string" where
  "formatLine i =
     concat (replicate
       ((case item_order i of None \<Rightarrow> 1 | Some k \<Rightarrow> length (split_js ''/'' k)) - 1) ''  '')
     @ '' - item '' @ item_id i @ '' ''
     @ (if truthy (item_parent i) then ''(parent '' @ string_of (item_parent i) @ '')'' else [])"

definition formatThread :: "ThreadSortableItem list \<Rightarrow> string" where
  "formatThread items = join_js [CHR 0x0A] (map formatLine items)"

section \<open>Notions used to state the properties\<close>

text \<open>The thread string an item carries.\<close>

definition thread :: "ThreadSortableItem \<Rightarrow> string" where
  "thread x = string_of (item_order x)"

text \<open>
  \<open>keeps items items'\<close>: the collection \<open>items'\<close> has the objects of \<open>items\<close> at the
  same positions, with the same \<open>id\<close> and \<open>parent\<close>, and every object that had a
  thread in \<open>items\<close> is unchanged.
\<close>

definition keeps :: "ThreadSortableItem list \<Rightarrow> ThreadSortableItem list \<Rightarrow> bool" where
  "keeps items items' \<longleftrightarrow>
     length items' = length items \<and>
     (\<forall>j<length items.
        item_id (items' ! j) = item_id (items ! j) \<and>
        item_parent (items' ! j) = item_parent (items ! j) \<and>
        (item_order (items ! j) \<noteq> None \<longrightarrow> items' ! j = items ! j))"

text \<open>
  The non-empty thread strings of a collection, and those of the objects whose
  \<open>parent\<close> field is \<open>pid\<close>: what the two scans for a maximum range over.
\<close>

definition threads :: "ThreadSortableItem list \<Rightarrow> string set" where
  "threads items = {k. k \<noteq> [] \<and> (\<exists>x\<in>set items. item_order x = Some k)}"

definition siblingThreads :: "ThreadSortableItem list \<Rightarrow> string \<Rightarrow> string set" where
  "siblingThreads items pid =
     {k. k \<noteq> [] \<and> (\<exists>x\<in>set items. item_parent x = Some pid \<and> item_order x = Some k)}"

text \<open>A thread string without its end-of-record marker \<open>.\<close>, and its first and last
  segments between the delimiters \<open>/\<close>.\<close>

definition withoutEor :: "string \<Rightarrow> string" where
  "withoutEor k = (if k \<noteq> [] \<and> last k = CHR ''.'' then butlast k else k)"

definition firstSegment :: "string \<Rightarrow> string" where
  "firstSegment s = takeWhile (\<lambda>d. d \<noteq> CHR ''/'') s"

definition lastSegment :: "string \<Rightarrow> string" where
  "lastSegment s = rev (takeWhile (\<lambda>d. d \<noteq> CHR ''/'') (rev s))"

text \<open>The depth that \<open>formatThread\<close> renders: the number of segments of the thread
  string less one, which is the number of delimiters in it; no thread is depth 0.\<close>

definition depth :: "ThreadSortableItem \<Rightarrow> nat" where
  "depth i = (case item_order i of None \<Rightarrow> 0 | Some k \<Rightarrow> count_list k CHR ''/'')"

text \<open>
  The number that claim C6 states for a new root: from the maximum thread among the
  keyed objects that are roots (no \<open>parent\<close>, or a \<open>parent\<close> that no \<open>id\<close> matches),
  and \<open>-1\<close> when no object is keyed.
\<close>

definition isRoot :: "ThreadSortableItem list \<Rightarrow> ThreadSortableItem \<Rightarrow> bool" where
  "isRoot items x =
     (case item_parent x of None \<Rightarrow> True | Some pid \<Rightarrow> find_js (\<lambda>i. item_id i = pid) items = None)"


text \<open>
  The position of the parent object of the object at position \<open>c\<close>: what
  \<open>items.find(i => i.id == c.parent)\<close> finds, if anything.
\<close>

definition parentIndex :: "ThreadSortableItem list \<Rightarrow> nat \<Rightarrow> nat option" where
  "parentIndex items c =
     (case item_parent (items ! c) of
        None \<Rightarrow> None
      | Some pid \<Rightarrow> findIndex (\<lambda>i. item_id i = pid) items)"

text \<open>
  The parent references are acyclic when the chain of parents of every object ends
  in a root; a chain without a repetition has fewer steps than the collection has
  objects.
\<close>

fun climbs :: "nat \<Rightarrow> ThreadSortableItem list \<Rightarrow> nat \<Rightarrow> bool" where
  "climbs 0 items c = (parentIndex items c = None)"
| "climbs (Suc n) items c =
     (case parentIndex items c of None \<Rightarrow> True | Some p \<Rightarrow> climbs n items p)"

definition acyclicParents :: "ThreadSortableItem list \<Rightarrow> bool" where
  "acyclicParents items = list_all (climbs (length items) items) [0..<length items]"

text \<open>
  \<open>settles items c h\<close>: the call \<open>populateThreadForItem(c)\<close> on the collection \<open>items\<close>
  recurses \<open>h\<close> times before it meets an object with a thread or a root.
\<close>

inductive settles :: "ThreadSortableItem list \<Rightarrow> nat \<Rightarrow> nat \<Rightarrow> bool" for items where
  keyed: "item_order (items ! c) \<noteq> None \<Longrightarrow> settles items c 0"
| root: "item_order (items ! c) = None \<Longrightarrow> parentIndex items c = None \<Longrightarrow> settles items c 0"
| child: "item_order (items ! c) = None \<Longrightarrow> parentIndex items c = Some p \<Longrightarrow>
    settles items p h \<Longrightarrow> settles items c (Suc h)"

text \<open>
  The segment of a sibling number \<open>j\<close>, and the thread string of a path of sibling
  numbers from a root down to an object.
\<close>

definition segment :: "nat \<Rightarrow> string" where
  "segment j = padStart0 2 (toString36 (Num (int j)))"

definition pathKey :: "nat list \<Rightarrow> string" where
  "pathKey p = join_js ''/'' (map segment p) @ ''.''"

text \<open>The other way: the numbers that the segments of a thread string stand for.\<close>

definition segmentValue :: "string \<Rightarrow> nat" where
  "segmentValue s = (case parseInt36 s of NaN \<Rightarrow> 0 | Num i \<Rightarrow> nat i)"

definition keyPath :: "string \<Rightarrow> nat list" where
  "keyPath k = map segmentValue (split_js ''/'' (withoutEor k))"

definition itemPath :: "ThreadSortableItem \<Rightarrow> nat list" where
  "itemPath x = keyPath (thread x)"

text \<open>The sibling number of an object: the last number of its path.\<close>

definition siblingNumber :: "ThreadSortableItem \<Rightarrow> nat" where
  "siblingNumber x = last (itemPath x)"

text \<open>
  A thread string is well formed when it is the thread string of a path of sibling
  numbers below \<open>36\<^sup>2 = 1296\<close>, each of which has a segment of two characters.
\<close>

definition wellFormed :: "string \<Rightarrow> bool" where
  "wellFormed k \<longleftrightarrow> list_all (\<lambda>j. j < 1296) (keyPath k) \<and> k = pathKey (keyPath k)"

text \<open>
  Claim C4 for one pair: the thread \<open>k\<close> of a child lies under the thread \<open>kp\<close> of its
  parent when \<open>kp\<close> without its marker, then the delimiter, is a proper prefix of \<open>k\<close>
  without its marker, and \<open>kp\<close> is below \<open>k\<close> in the order of the strings.
\<close>

definition underParent :: "string \<Rightarrow> string \<Rightarrow> bool" where
  "underParent kp k \<longleftrightarrow> strict_prefix (withoutEor kp @ ''/'') (withoutEor k) \<and> kp < k"

text \<open>
  \<open>newUnderParent items0 items\<close>: every object that had no thread in \<open>items0\<close>, has one
  in \<open>items\<close> and has a parent object, has this thread under the thread of the parent.
\<close>

definition newUnderParent :: "ThreadSortableItem list \<Rightarrow> ThreadSortableItem list \<Rightarrow> bool" where
  "newUnderParent items0 items \<longleftrightarrow>
     (\<forall>c<length items0. \<forall>p. item_order (items0 ! c) = None \<and> item_order (items ! c) \<noteq> None
        \<and> parentIndex items0 c = Some p
        \<longrightarrow> item_order (items ! p) \<noteq> None \<and> underParent (thread (items ! p)) (thread (items ! c)))"

text \<open>
  The keyed siblings of the object at \<open>c\<close>: the objects with a thread and the same
  parent object; for a root, the roots with a thread.
\<close>

definition keyedSiblings :: "ThreadSortableItem list \<Rightarrow> nat \<Rightarrow> nat set" where
  "keyedSiblings items c =
     {d. d < length items \<and> item_order (items ! d) \<noteq> None \<and> parentIndex items d = parentIndex items c}"

text \<open>
  A collection is consistent when the threads it holds fit its tree: every thread is
  well formed; the path of a root has one number, and the path of a child is the path
  of its parent, which has a thread too, and one more number; and the sibling numbers
  of the keyed siblings are distinct and below their count.  A collection without any
  thread is consistent, and so is every collection that \<open>sortThread\<close> has made from one.
\<close>

definition consistent :: "ThreadSortableItem list \<Rightarrow> bool" where
  "consistent items \<longleftrightarrow>
     (\<forall>c<length items. item_order (items ! c) \<noteq> None \<longrightarrow>
        wellFormed (thread (items ! c)) \<and>
        (case parentIndex items c of
           None \<Rightarrow> length (itemPath (items ! c)) = 1
         | Some p \<Rightarrow> item_order (items ! p) \<noteq> None \<and> butlast (itemPath (items ! c)) = itemPath (items ! p)) \<and>
        siblingNumber (items ! c) < card (keyedSiblings items c) \<and>
        (\<forall>d\<in>keyedSiblings items c. siblingNumber (items ! d) = siblingNumber (items ! c) \<longrightarrow> d = c))"

text \<open>No parent has more than \<open>1296\<close> children, and there are no more than \<open>1296\<close> roots.\<close>

definition siblingCount :: "ThreadSortableItem list \<Rightarrow> nat \<Rightarrow> nat" where
  "siblingCount items c =
     length (filter (\<lambda>d. parentIndex items d = parentIndex items c) [0..<length items])"

definition siblingsBounded :: "ThreadSortableItem list \<Rightarrow> bool" where
  "siblingsBounded items = list_all (\<lambda>c. siblingCount items c \<le> 1296) [0..<length items]"

section \<open>Basic facts about the keying pass\<close>

subsection \<open>Lookups\<close>

lemma findIndex_Some:
  "findIndex p xs = Some i \<Longrightarrow> i < length xs \<and> p (xs ! i) \<and> (\<forall>j<i. \<not> p (xs ! j))"
proof (induction xs arbitrary: i)
  case Nil
  then show ?case by simp
next
  case (Cons x xs)
  show ?case
  proof (cases "p x")
    case True
    with Cons.prems show ?thesis by simp
  next
    case False
    with Cons.prems obtain k where k: "findIndex p xs = Some k" "i = Suc k" by auto
    from Cons.IH [OF k(1)] False k(2) show ?thesis
      by (auto simp: less_Suc_eq_0_disj)
  qed
qed

lemma findIndex_None: "findIndex p xs = None \<longleftrightarrow> (\<forall>x\<in>set xs. \<not> p x)"
  by (induction xs) auto

lemma find_js_None: "find_js p xs = None \<longleftrightarrow> (\<forall>x\<in>set xs. \<not> p x)"
  by (induction xs) auto

lemma find_js_findIndex: "find_js p xs = map_option (\<lambda>i. xs ! i) (findIndex p xs)"
  by (induction xs) (auto simp: option.map_comp comp_def)

lemma populate_cases [consumes 1, case_names keyed root broken child]:
  assumes run: "populateThreadForItem opt items c = Some r"
    and keyed: "\<And>items c k. item_order (items ! c) = Some k \<Longrightarrow> P items c (Inr items)"
    and root: "\<And>items c. item_order (items ! c) = None \<Longrightarrow> item_parent (items ! c) = None \<Longrightarrow>
        P items c (Inr (setThread items c (rootThread opt items)))"
    and broken: "\<And>items c pid. item_order (items ! c) = None \<Longrightarrow> item_parent (items ! c) = Some pid \<Longrightarrow>
        findIndex (\<lambda>i. item_id i = pid) items = None \<Longrightarrow>
        P items c (Inr (setThread items c (rootThread opt items)))"
    and child: "\<And>items c pid p items'. item_order (items ! c) = None \<Longrightarrow>
        item_parent (items ! c) = Some pid \<Longrightarrow>
        findIndex (\<lambda>i. item_id i = pid) items = Some p \<Longrightarrow>
        populateThreadForItem opt items p = Some (Inr items') \<Longrightarrow>
        P items p (Inr items') \<Longrightarrow>
        P items c (Inr (setThread items' c (childThread opt items' p pid)))"
  shows "P items c r"
proof -
  have "populateThreadForItem opt items c = Some r \<and> (\<exists>items'. r = Inr items') \<and> P items c r"
  proof (rule populateThreadForItem.raw_induct
      [where P = "\<lambda>opt' items c r. opt' = opt \<longrightarrow>
          populateThreadForItem opt items c = Some r \<and> (\<exists>items'. r = Inr items') \<and> P items c r"
        and opt = opt, OF _ run, rule_format], goal_cases)
    case (1 pop opt' items c r)
    note IH = 1(1) [rule_format, OF _ refl] and body = 1(2) [unfolded 1(3)]
    show ?case
    proof (cases "item_order (items ! c)")
      case (Some k)
      with body have "r = Inr items" by simp
      with Some keyed [OF Some] show ?thesis
        by (simp add: populateThreadForItem.simps [of opt items c])
    next
      case None
      note unkeyed = None
      show ?thesis
      proof (cases "item_parent (items ! c)")
        case None
        with unkeyed body
        have "r = Inr (setThread items c (rootThread opt items))" by simp
        with unkeyed None root [OF unkeyed None] show ?thesis
          by (simp add: populateThreadForItem.simps [of opt items c])
      next
        case (Some pid)
        show ?thesis
        proof (cases "findIndex (\<lambda>i. item_id i = pid) items")
          case None
          with unkeyed Some body
          have "r = Inr (setThread items c (rootThread opt items))"
            by (simp add: find_js_findIndex)
          with unkeyed Some None broken [OF unkeyed Some None] show ?thesis
            by (simp add: populateThreadForItem.simps [of opt items c] find_js_findIndex)
        next
          case (Some p)
          note par = \<open>item_parent (items ! c) = Some pid\<close>
          from unkeyed par Some body obtain r' where
            r': "pop opt items p = Some r'"
            and r: "(case r' of Inl e \<Rightarrow> Some (Inl e)
                     | Inr items' \<Rightarrow> Some (Inr (setThread items' c (childThread opt items' p pid)))) = Some r"
            by (auto simp: bind_eq_Some_conv find_js_findIndex)
          from IH [OF r'] obtain items' where
            i': "r' = Inr items'" "populateThreadForItem opt items p = Some (Inr items')"
              "P items p (Inr items')" by blast
          from r i' have req: "r = Inr (setThread items' c (childThread opt items' p pid))" by simp
          have "populateThreadForItem opt items c = Some r"
            using unkeyed par Some i'(2) req
            by (simp add: populateThreadForItem.simps [of opt items c] find_js_findIndex)
          with req child [OF unkeyed par Some i'(2) i'(3)] show ?thesis by simp
        qed
      qed
    qed
  qed simp
  then show ?thesis by simp
qed

subsection \<open>What a call of \<open>populateThreadForItem\<close> keeps\<close>

lemma keeps_refl: "keeps items items"
  by (simp add: keeps_def)

lemma keeps_trans: "keeps a b \<Longrightarrow> keeps b c \<Longrightarrow> keeps a c"
  by (auto simp: keeps_def)

lemma keeps_setThread:
  "keeps items items' \<Longrightarrow> item_order (items ! c) = None \<Longrightarrow> keeps items (setThread items' c t)"
  by (cases "c < length items") (auto simp: keeps_def setThread_def nth_list_update)

lemma keyed_setThread:
  "c < length items \<Longrightarrow> item_order (setThread items c t ! c) = Some t"
  by (simp add: setThread_def)

lemma populate_no_throw: "populateThreadForItem opt items c \<noteq> Some (Inl e)"
proof
  assume "populateThreadForItem opt items c = Some (Inl e)"
  then have "\<exists>items'. (Inl e :: error + ThreadSortableItem list) = Inr items'"
    by (induction rule: populate_cases) simp_all
  then show False by simp
qed

lemma populate_keeps:
  assumes "populateThreadForItem opt items c = Some r"
  shows "\<exists>items'. r = Inr items' \<and> keeps items items' \<and>
    (c < length items \<longrightarrow> item_order (items' ! c) \<noteq> None)"
  using assms
proof (induction rule: populate_cases)
  case (keyed items c k)
  then show ?case by (simp add: keeps_refl)
next
  case (root items c)
  then show ?case by (simp add: keeps_setThread keeps_refl keyed_setThread)
next
  case (broken items c pid)
  then show ?case by (simp add: keeps_setThread keeps_refl keyed_setThread)
next
  case (child items c pid p items')
  then have k: "keeps items items'" by simp
  then have "length items' = length items" by (simp add: keeps_def)
  with k child(1) show ?case
    by (simp add: keeps_setThread keyed_setThread)
qed

lemma populate_keyed_noop:
  "item_order (items ! c) = Some k \<Longrightarrow> populateThreadForItem opt items c = Some (Inr items)"
  by (simp add: populateThreadForItem.simps [of opt items c])

lemma populateAll_keeps:
  assumes "populateAll opt cs items = Some r"
  shows "\<exists>items'. r = Inr items' \<and> keeps items items' \<and>
    (\<forall>c\<in>set cs. c < length items \<longrightarrow> item_order (items' ! c) \<noteq> None)"
  using assms
proof (induction cs arbitrary: items)
  case Nil
  then show ?case by (auto simp: keeps_refl)
next
  case (Cons c cs)
  from Cons.prems obtain r1 where r1: "populateThreadForItem opt items c = Some r1"
    and rest: "(case r1 of Inl e \<Rightarrow> Some (Inl e) | Inr items' \<Rightarrow> populateAll opt cs items') = Some r"
    by (auto simp: bind_eq_Some_conv)
  from populate_keeps [OF r1] obtain items1 where
    i1: "r1 = Inr items1" "keeps items items1" "c < length items \<longrightarrow> item_order (items1 ! c) \<noteq> None"
    by blast
  from rest i1(1) have "populateAll opt cs items1 = Some r" by simp
  from Cons.IH [OF this] obtain items' where
    i': "r = Inr items'" "keeps items1 items'"
      "\<forall>c\<in>set cs. c < length items1 \<longrightarrow> item_order (items' ! c) \<noteq> None" by blast
  have len: "length items1 = length items" using i1(2) by (simp add: keeps_def)
  have "c < length items \<longrightarrow> item_order (items' ! c) \<noteq> None"
    using i1(3) i'(2) len by (auto simp: keeps_def)
  with i' i1(2) len show ?case
    by (auto intro: keeps_trans)
qed

lemma populateAll_keyed_noop:
  "\<forall>c\<in>set cs. item_order (items ! c) \<noteq> None \<Longrightarrow> populateAll opt cs items = Some (Inr items)"
  by (induction cs) (auto simp: populate_keyed_noop)

lemma sortThread_no_throw: "sortThread opt items \<noteq> Some (Inl e)"
proof
  assume a: "sortThread opt items = Some (Inl e)"
  then obtain r where r: "populateAll opt [0..<length items] items = Some r"
    by (auto simp: sortThread_def bind_eq_Some_conv)
  from populateAll_keeps [OF r] obtain items' where "r = Inr items'" by blast
  with a r show False by (simp add: sortThread_def)
qed

subsection \<open>The comparator sort on keyed items is the stable sort by thread string\<close>

lemma insert_cmp_insort_key:
  assumes "\<And>a b. a \<in> insert x (set ys) \<Longrightarrow> b \<in> insert x (set ys) \<Longrightarrow> (cmp a b \<le> 0) = (f a \<le> f b)"
  shows "insert_cmp cmp x ys = insort_key f x ys"
  using assms by (induction ys) auto

lemma set_insert_cmp: "set (insert_cmp cmp x ys) = insert x (set ys)"
  by (induction ys) auto

lemma set_sort_cmp: "set (sort_cmp cmp xs) = set xs"
  by (induction xs) (auto simp: sort_cmp_def set_insert_cmp)

lemma sort_cmp_sort_key:
  assumes "\<And>a b. a \<in> set xs \<Longrightarrow> b \<in> set xs \<Longrightarrow> (cmp a b \<le> 0) = (f a \<le> f b)"
  shows "sort_cmp cmp xs = sort_key f xs"
  using assms
proof (induction xs)
  case Nil
  then show ?case by (simp add: sort_cmp_def)
next
  case (Cons x xs)
  then have IH: "sort_cmp cmp xs = sort_key f xs" by simp
  have "insert_cmp cmp x (sort_key f xs) = insort_key f x (sort_key f xs)"
    by (rule insert_cmp_insort_key) (use Cons.prems in auto)
  with IH show ?case by (simp add: sort_cmp_def)
qed

lemma compareThread_keyed:
  "item_order a \<noteq> None \<Longrightarrow> item_order b \<noteq> None \<Longrightarrow> (compareThread a b \<le> 0) = (thread a \<le> thread b)"
  by (auto simp: compareThread_def localeCompare_def thread_def string_of_def split: if_splits)

lemma sort_compareThread:
  "\<forall>x\<in>set xs. item_order x \<noteq> None \<Longrightarrow> sort_cmp compareThread xs = sort_key thread xs"
  by (rule sort_cmp_sort_key) (simp add: compareThread_keyed)

lemma sorted_sort_compareThread:
  assumes "\<forall>x\<in>set xs. item_order x \<noteq> None"
  shows "sort_cmp compareThread (sort_cmp compareThread xs) = sort_cmp compareThread xs"
proof -
  have "\<forall>x\<in>set (sort_key thread xs). item_order x \<noteq> None" using assms by simp
  then show ?thesis
    using assms by (simp add: sort_compareThread sort_key_id_if_sorted)
qed

lemma keeps_all_keyed:
  assumes "keeps items items'" "\<forall>c\<in>set [0..<length items]. c < length items \<longrightarrow> item_order (items' ! c) \<noteq> None"
  shows "\<forall>x\<in>set items'. item_order x \<noteq> None"
  using assms by (auto simp: keeps_def in_set_conv_nth)


section \<open>The scans for a maximum, and \<open>split\<close> at a one-character delimiter\<close>

lemma last_sorted_Max: "sorted xs \<Longrightarrow> xs \<noteq> [] \<Longrightarrow> last xs = Max (set xs)"
proof (induction xs)
  case Nil
  then show ?case by simp
next
  case (Cons x xs)
  show ?case
  proof (cases "xs = []")
    case True
    then show ?thesis by simp
  next
    case False
    with Cons have "last xs = Max (set xs)" by simp
    moreover from False obtain a where "a \<in> set xs" by (cases xs) auto
    with Cons.prems have "x \<le> Max (set xs)"
      by (meson List.finite_set Max_ge order_trans sorted_simps(2))
    ultimately show ?thesis using False by (simp add: max_def)
  qed
qed

lemma pop_order_Max:
  assumes "\<forall>x\<in>set xs. item_order x \<noteq> None"
  shows "pop_order xs = (if xs = [] then None else Some (Max (thread ` set xs)))"
proof (cases "xs = []")
  case True
  then show ?thesis by (simp add: pop_order_def sort_cmp_def)
next
  case False
  let ?s = "sort_key thread xs"
  have ne: "?s \<noteq> []" using False by (metis length_sort list.size(3) length_0_conv)
  have "thread (last ?s) = last (map thread ?s)" using ne by (simp add: last_map)
  also have "\<dots> = Max (set (map thread ?s))"
    by (rule last_sorted_Max) (use ne in simp_all)
  finally have m: "thread (last ?s) = Max (thread ` set xs)" by simp
  have "last ?s \<in> set xs" using ne by (metis last_in_set set_sort)
  with assms have "item_order (last ?s) = Some (thread (last ?s))"
    by (auto simp: thread_def string_of_def)
  with m False ne show ?thesis
    by (auto simp: pop_order_def sort_compareThread [OF assms] split: list.splits)
qed

lemma truthy_thread: "truthy (item_order x) \<Longrightarrow> item_order x = Some (thread x) \<and> thread x \<noteq> []"
  by (auto simp: truthy_def thread_def string_of_def split: option.splits)

lemma threads_image: "threads items = thread ` set (filter (\<lambda>t. truthy (item_order t)) items)"
proof (intro set_eqI iffI)
  fix k
  assume "k \<in> threads items"
  then obtain x where "x \<in> set items" "item_order x = Some k" "k \<noteq> []"
    by (auto simp: threads_def)
  then have "x \<in> set (filter (\<lambda>t. truthy (item_order t)) items)" "thread x = k"
    by (simp_all add: truthy_def thread_def string_of_def)
  then show "k \<in> thread ` set (filter (\<lambda>t. truthy (item_order t)) items)" by blast
next
  fix k
  assume "k \<in> thread ` set (filter (\<lambda>t. truthy (item_order t)) items)"
  then obtain x where x: "x \<in> set items" "truthy (item_order x)" "k = thread x" by auto
  from truthy_thread [OF x(2)] x show "k \<in> threads items"
    by (auto simp: threads_def)
qed

lemma getMaxThread_Max:
  "getMaxThread items = (if threads items = {} then None else Some (Max (threads items)))"
proof -
  have "\<forall>x\<in>set (filter (\<lambda>t. truthy (item_order t)) items). item_order x \<noteq> None"
    by (auto simp: truthy_def split: option.splits)
  from pop_order_Max [OF this] show ?thesis
    by (auto simp: getMaxThread_def threads_image filter_empty_conv)
qed

lemma split_from_length: "length (split_from [c] cur s) = Suc (count_list s c)"
  by (induction "[c]" cur s rule: split_from.induct) auto

lemma split_js_length: "length (split_js [c] s) = Suc (count_list s c)"
  by (simp add: split_js_def split_from_length)

lemma split_from_hd: "hd (split_from [c] cur s) = rev cur @ takeWhile (\<lambda>d. d \<noteq> c) s"
  by (induction "[c]" cur s rule: split_from.induct) auto

lemma split_js_first: "part_string (split_js [c] s) 0 = takeWhile (\<lambda>d. d \<noteq> c) s"
proof -
  have "split_js [c] s \<noteq> []" using split_js_length [of c s] by auto
  then have "split_js [c] s ! 0 = hd (split_js [c] s)" by (simp add: hd_conv_nth)
  then show ?thesis
    using split_js_length [of c s] split_from_hd [of c "[]" s]
    by (simp add: part_string_def string_of_def split_js_def)
qed


lemma siblingThreads_image:
  "siblingThreads items pid =
     thread ` set (filter (\<lambda>i. item_parent i = Some pid \<and> truthy (item_order i)) items)"
proof (intro set_eqI iffI)
  fix k
  assume "k \<in> siblingThreads items pid"
  then obtain x where "x \<in> set items" "item_parent x = Some pid" "item_order x = Some k" "k \<noteq> []"
    by (auto simp: siblingThreads_def)
  then have "x \<in> set (filter (\<lambda>i. item_parent i = Some pid \<and> truthy (item_order i)) items)" "thread x = k"
    by (simp_all add: truthy_def thread_def string_of_def)
  then show "k \<in> thread ` set (filter (\<lambda>i. item_parent i = Some pid \<and> truthy (item_order i)) items)"
    by blast
next
  fix k
  assume "k \<in> thread ` set (filter (\<lambda>i. item_parent i = Some pid \<and> truthy (item_order i)) items)"
  then obtain x where x: "x \<in> set items" "item_parent x = Some pid" "truthy (item_order x)" "k = thread x"
    by auto
  from truthy_thread [OF x(3)] x show "k \<in> siblingThreads items pid"
    by (auto simp: siblingThreads_def)
qed

lemma getMaxThreadPerThread_Max:
  "getMaxThreadPerThread items pid =
     (if siblingThreads items pid = {} then None else Some (Max (siblingThreads items pid)))"
proof -
  have "\<forall>x\<in>set (filter (\<lambda>i. item_parent i = Some pid \<and> truthy (item_order i)) items). item_order x \<noteq> None"
    by (auto simp: truthy_def split: option.splits)
  from pop_order_Max [OF this] show ?thesis
    by (auto simp: getMaxThreadPerThread_def siblingThreads_image filter_empty_conv)
qed



lemma defaults_fields: "delimiter defaults = ''/''" "endOfRecord defaults = ''.''"
  by (simp_all add: defaults_def)

lemma stripEor_None: "stripEor opt None = None"
  by (simp add: stripEor_def)

lemma stripEor_defaults: "stripEor defaults (Some t) = Some (withoutEor t)"
  by (cases t rule: rev_cases) (auto simp: stripEor_def defaults_def endsWith_def withoutEor_def)

lemma rootNumber_defaults:
  "rootNumber defaults items =
     (if threads items = {} \<or> withoutEor (Max (threads items)) = [] then Num (- 1)
      else parseInt36 (firstSegment (withoutEor (Max (threads items)))))"
  by (simp add: rootNumber_def getMaxThread_Max stripEor_defaults firstSegment_def
      split_js_first truthy_def Let_def defaults_fields stripEor_None)




lemma populate_root:
  assumes "item_order (items ! c) = None" "isRoot items (items ! c)"
  shows "populateThreadForItem opt items c = Some (Inr (setThread items c (rootThread opt items)))"
proof (cases "item_parent (items ! c)")
  case None
  with assms(1) show ?thesis
    by (simp add: populateThreadForItem.simps [of opt items c])
next
  case (Some pid)
  with assms(2) have "find_js (\<lambda>i. item_id i = pid) items = None"
    by (simp add: isRoot_def)
  with assms(1) Some show ?thesis
    by (simp add: populateThreadForItem.simps [of opt items c])
qed

lemma digit36_in: "d < 36 \<Longrightarrow> digit36 d \<in> set ''0123456789abcdefghijklmnopqrstuvwxyz''"
  unfolding digit36_def by (rule nth_mem) simp

lemma natToString36_chars: "set (natToString36 n) \<subseteq> set ''0123456789abcdefghijklmnopqrstuvwxyz''"
proof (induction n rule: natToString36.induct)
  case (1 n)
  show ?case
  proof (cases "n < 36")
    case True
    then show ?thesis using digit36_in [of n] by (subst natToString36.simps) simp
  next
    case False
    have "n mod 36 < 36" by simp
    from digit36_in [OF this] 1 [OF False] False show ?thesis
      by (subst natToString36.simps) simp
  qed
qed

lemma toString36_no_delimiter: "CHR ''/'' \<notin> set (padStart0 2 (toString36 n))"
proof -
  have "CHR ''/'' \<notin> set (natToString36 m)" for m
    using natToString36_chars [of m] by auto
  then show ?thesis
    by (auto simp: padStart0_def toString36_def split: number.splits)
qed


lemma sortThread_result:
  assumes "sortThread opt items = Some (Inr res)"
  shows "\<exists>items'. populateAll opt [0..<length items] items = Some (Inr items') \<and> keeps items items'
     \<and> (\<forall>x\<in>set items'. item_order x \<noteq> None) \<and> res = sort_cmp compareThread items'"
proof -
  from assms obtain r where r: "populateAll opt [0..<length items] items = Some r"
    and res: "(case r of Inl e \<Rightarrow> Some (Inl e) | Inr items' \<Rightarrow> Some (Inr (sort_cmp compareThread items'))) = Some (Inr res)"
    by (auto simp: sortThread_def bind_eq_Some_conv)
  from populateAll_keeps [OF r] obtain items' where
    i': "r = Inr items'" "keeps items items'"
      "\<forall>c\<in>set [0..<length items]. c < length items \<longrightarrow> item_order (items' ! c) \<noteq> None" by blast
  from res i'(1) have "res = sort_cmp compareThread items'" by simp
  with r i' keeps_all_keyed [OF i'(2,3)] show ?thesis by blast
qed

section \<open>Segments, thread strings of paths, and their order\<close>

lemma digit36_code: "\<forall>i\<in>set [0..<36]. of_char (digit36 i) = (if i < 10 then 48 + i else 87 + i)"
  by (simp add: digit36_def upt_rec [of _ "numeral _"])

lemma digit36_of_char: "i < 36 \<Longrightarrow> of_char (digit36 i) = (if i < 10 then 48 + i else 87 + i)"
  using digit36_code by simp

lemma digit36_mono: "i < j \<Longrightarrow> j < 36 \<Longrightarrow> digit36 i < digit36 j"
  by (simp add: less_char_def digit36_of_char)

lemma digit36_inj: "i < 36 \<Longrightarrow> j < 36 \<Longrightarrow> digit36 i = digit36 j \<longleftrightarrow> i = j"
  by (metis digit36_mono less_irrefl linorder_neqE_nat)

lemma digitValue36_digit36: "i < 36 \<Longrightarrow> digitValue36 (digit36 i) = Some i"
  by (auto simp: digitValue36_def digit36_of_char Let_def)

lemma digit36_above: "i < 36 \<Longrightarrow> CHR ''/'' < digit36 i"
  by (simp add: less_char_def digit36_of_char)

lemma digit36_neq: "i < 36 \<Longrightarrow> digit36 i \<noteq> CHR ''/'' \<and> digit36 i \<noteq> CHR ''.'' \<and> digit36 i \<noteq> CHR ''-''
    \<and> digit36 i \<noteq> CHR ''+'' \<and> \<not> isWhiteSpace (digit36 i)"
proof -
  assume i: "i < 36"
  have "c = d \<Longrightarrow> (of_char c :: nat) = of_char d" for c d :: char by simp
  from this [of "digit36 i"] digit36_of_char [OF i] show ?thesis
    by (auto simp: isWhiteSpace_def split: if_splits)
qed

lemma segment_small: "j < 1296 \<Longrightarrow> segment j = [digit36 (j div 36), digit36 (j mod 36)]"
proof -
  assume j: "j < 1296"
  show ?thesis
  proof (cases "j < 36")
    case True
    have "digit36 0 = CHR ''0''" by (simp add: digit36_def)
    with True show ?thesis
      by (simp add: segment_def toString36_def natToString36.simps [of j] padStart0_def)
  next
    case False
    with j have "j div 36 < 36" by simp
    with False show ?thesis
      by (simp add: segment_def toString36_def natToString36.simps [of j]
          natToString36.simps [of "j div 36"] padStart0_def)
  qed
qed

lemma segment_mono:
  assumes "i < j" "j < 1296"
  shows "segment i < segment j"
proof -
  have d: "i div 36 < 36" "j div 36 < 36" "i mod 36 < 36" "j mod 36 < 36" using assms by simp_all
  have s: "segment i = [digit36 (i div 36), digit36 (i mod 36)]"
    "segment j = [digit36 (j div 36), digit36 (j mod 36)]"
    using assms by (simp_all add: segment_small)
  have le: "i div 36 \<le> j div 36" using assms(1) by (simp add: div_le_mono)
  have ei: "i = 36 * (i div 36) + i mod 36" and ej: "j = 36 * (j div 36) + j mod 36"
    by simp_all
  have "i div 36 = j div 36 \<Longrightarrow> i mod 36 < j mod 36"
    using assms(1) ei ej by linarith
  with le have "i div 36 < j div 36 \<or> (i div 36 = j div 36 \<and> i mod 36 < j mod 36)"
    by linarith
  then show ?thesis
  proof
    assume "i div 36 < j div 36"
    then have "digit36 (i div 36) < digit36 (j div 36)" using d(2) by (rule digit36_mono)
    then show ?thesis unfolding s by simp
  next
    assume a: "i div 36 = j div 36 \<and> i mod 36 < j mod 36"
    then have "digit36 (i mod 36) < digit36 (j mod 36)" using d(4) by (simp add: digit36_mono)
    with a show ?thesis unfolding s by simp
  qed
qed

lemma parseInt36_segment: "j < 1296 \<Longrightarrow> parseInt36 (segment j) = Num (int j)"
proof -
  assume j: "j < 1296"
  then have d: "j div 36 < 36" "j mod 36 < 36" by simp_all
  note n1 = digit36_neq [OF d(1)] and n2 = digit36_neq [OF d(2)]
  have "int (36 * (j div 36) + j mod 36) = int j" by simp
  then have e: "36 * int (j div 36) + int (j mod 36) = int j"
    by (simp only: of_nat_add of_nat_mult of_nat_numeral)
  show ?thesis
    using n1 n2 e by (simp add: parseInt36_def segment_small [OF j] digitValue36_digit36 [OF d(1)]
        digitValue36_digit36 [OF d(2)] Let_def)
qed

lemma segmentValue_segment: "j < 1296 \<Longrightarrow> segmentValue (segment j) = j"
  by (simp add: segmentValue_def parseInt36_segment)

lemma segment_no_delimiter: "CHR ''/'' \<notin> set (segment j)"
  by (simp add: segment_def toString36_no_delimiter)

lemma segment_last: "j < 1296 \<Longrightarrow> segment j \<noteq> [] \<and> last (segment j) \<noteq> CHR ''.''"
  using digit36_neq [of "j mod 36"] by (simp add: segment_small)

lemma join_js_snoc: "xs \<noteq> [] \<Longrightarrow> join_js sep (xs @ [y]) = join_js sep xs @ sep @ y"
  by (induction sep xs rule: join_js.induct) simp_all

lemma pathKey_single: "pathKey [a] = segment a @ ''.''"
  by (simp add: pathKey_def)

lemma pathKey_Cons: "p \<noteq> [] \<Longrightarrow> pathKey (a # p) = segment a @ ''/'' @ pathKey p"
  by (cases p) (simp_all add: pathKey_def)

lemma pathKey_snoc: "p \<noteq> [] \<Longrightarrow> pathKey (p @ [m]) = butlast (pathKey p) @ ''/'' @ segment m @ ''.''"
  by (simp add: pathKey_def join_js_snoc butlast_append)

lemma withoutEor_pathKey: "withoutEor (pathKey p) = join_js ''/'' (map segment p)"
  by (simp add: withoutEor_def pathKey_def butlast_append)

lemma split_from_skip:
  "c \<notin> set a \<Longrightarrow> split_from [c] cur (a @ rest) = split_from [c] (rev a @ cur) rest"
  by (induction a arbitrary: cur) auto

lemma split_from_piece: "c \<notin> set a \<Longrightarrow> split_from [c] [] a = [a]"
  using split_from_skip [of c a "[]" "[]"] by simp

lemma split_from_sep:
  "c \<notin> set a \<Longrightarrow> split_from [c] [] (a @ c # rest) = a # split_from [c] [] rest"
  using split_from_skip [of c a "[]" "c # rest"] by simp

lemma split_join:
  assumes "xs \<noteq> []" "\<forall>x\<in>set xs. c \<notin> set x"
  shows "split_js [c] (join_js [c] xs) = xs"
  using assms
proof (induction "[c]" xs rule: join_js.induct)
  case 1
  then show ?case by simp
next
  case (2 x)
  then show ?case by (simp add: split_js_def split_from_piece)
next
  case (3 x y ys)
  then have "split_from [c] [] (join_js [c] (y # ys)) = y # ys" by (simp add: split_js_def)
  with 3 show ?case by (simp add: split_js_def split_from_sep)
qed

lemma keyPath_pathKey:
  assumes "p \<noteq> []" "\<forall>j\<in>set p. j < 1296"
  shows "keyPath (pathKey p) = p"
proof -
  have "split_js ''/'' (join_js ''/'' (map segment p)) = map segment p"
    by (rule split_join) (use assms(1) segment_no_delimiter in auto)
  then have "keyPath (pathKey p) = map segmentValue (map segment p)"
    by (simp add: keyPath_def withoutEor_pathKey)
  also have "\<dots> = p" using assms(2) by (simp add: map_idI segmentValue_segment)
  finally show ?thesis .
qed

lemma keyPath_nonempty: "keyPath k \<noteq> []"
  using split_js_length [of "CHR ''/''" "withoutEor k"] by (auto simp: keyPath_def)

lemma wellFormed_pathKey:
  "p \<noteq> [] \<Longrightarrow> \<forall>j\<in>set p. j < 1296 \<Longrightarrow> wellFormed (pathKey p)"
  by (simp add: wellFormed_def keyPath_pathKey list_all_iff)

lemma wellFormed_path:
  "wellFormed k \<Longrightarrow> k = pathKey (keyPath k) \<and> keyPath k \<noteq> [] \<and> (\<forall>j\<in>set (keyPath k). j < 1296)"
  by (simp add: wellFormed_def list_all_iff keyPath_nonempty)

lemma append_less_cancel: "xs @ u < xs @ v \<longleftrightarrow> u < (v :: 'a :: linorder list)"
  by (induction xs) simp_all

lemma less_append_same_length:
  "length xs = length ys \<Longrightarrow> xs < ys \<Longrightarrow> xs @ u < ys @ (v :: 'a :: linorder list)"
  by (induction xs ys rule: list_induct2) auto

lemma length_segment: "j < 1296 \<Longrightarrow> length (segment j) = 2"
  by (simp add: segment_small)

lemma pathKey_mono:
  assumes "p < q" "p \<noteq> []" "\<forall>j\<in>set p. j < 1296" "\<forall>j\<in>set q. j < 1296"
  shows "pathKey p < pathKey q"
  using assms
proof (induction p arbitrary: q)
  case Nil
  then show ?case by simp
next
  case (Cons a p)
  from Cons.prems(1) obtain b q' where q: "q = b # q'" by (cases q) auto
  with Cons.prems have ab: "a < 1296" "b < 1296" by simp_all
  have form: "pathKey (c # r) = segment c @ (if r = [] then ''.'' else ''/'' @ pathKey r)" for c r
    by (simp add: pathKey_single pathKey_Cons)
  from Cons.prems(1) q consider "a < b" | "a = b" "p < q'" by auto
  then show ?case
  proof cases
    case 1
    then have "segment a < segment b" using ab(2) by (rule segment_mono)
    then show ?thesis
      unfolding q form by (rule less_append_same_length [rotated]) (simp add: length_segment ab)
  next
    case 2
    then have q': "q' \<noteq> []" by auto
    have "(if p = [] then ''.'' else ''/'' @ pathKey p) < ''/'' @ pathKey q'"
    proof (cases "p = []")
      case True
      then show ?thesis by simp
    next
      case False
      from Cons.IH [OF 2(2) False] Cons.prems(3,4) q have "pathKey p < pathKey q'" by simp
      with False show ?thesis by simp
    qed
    with 2(1) q' show ?thesis unfolding q form by (simp add: append_less_cancel)
  qed
qed

lemma pathKey_less_iff:
  assumes "p \<noteq> []" "q \<noteq> []" "\<forall>j\<in>set p. j < 1296" "\<forall>j\<in>set q. j < 1296"
  shows "pathKey p < pathKey q \<longleftrightarrow> p < q"
proof
  assume "p < q"
  then show "pathKey p < pathKey q" using assms(1,3,4) by (rule pathKey_mono)
next
  assume l: "pathKey p < pathKey q"
  show "p < q"
  proof (rule ccontr)
    assume "\<not> p < q"
    then consider "p = q" | "q < p" by fastforce
    then show False
    proof cases
      case 1
      with l show False by simp
    next
      case 2
      from pathKey_mono [OF 2 assms(2,4,3)] l show False by simp
    qed
  qed
qed

lemma pathKey_le_iff:
  assumes "p \<noteq> []" "q \<noteq> []" "\<forall>j\<in>set p. j < 1296" "\<forall>j\<in>set q. j < 1296"
  shows "pathKey p \<le> pathKey q \<longleftrightarrow> p \<le> q"
  using pathKey_less_iff [OF assms(2,1,4,3)] by (simp add: not_less [symmetric])

section \<open>The recursion on the parent\<close>

lemma findIndex_map: "findIndex (\<lambda>i. f i = v) xs = findIndex (\<lambda>s. s = v) (map f xs)"
  by (induction xs) simp_all

lemma keeps_ids: "keeps items items' \<Longrightarrow> map item_id items' = map item_id items"
  by (rule nth_equalityI) (simp_all add: keeps_def)

lemma keeps_length: "keeps items items' \<Longrightarrow> length items' = length items"
  by (simp add: keeps_def)

lemma keeps_parentIndex:
  assumes "keeps items items'" "c < length items"
  shows "parentIndex items' c = parentIndex items c"
proof -
  have "item_parent (items' ! c) = item_parent (items ! c)" using assms by (simp add: keeps_def)
  moreover have "findIndex (\<lambda>i. item_id i = pid) items' = findIndex (\<lambda>i. item_id i = pid) items" for pid
    by (simp add: findIndex_map [of item_id] keeps_ids [OF assms(1)])
  ultimately show ?thesis
    by (cases "item_parent (items ! c)") (simp_all add: parentIndex_def)
qed

lemma keeps_keyed:
  "keeps items items' \<Longrightarrow> c < length items \<Longrightarrow> item_order (items ! c) \<noteq> None \<Longrightarrow> items' ! c = items ! c"
  by (simp add: keeps_def)

lemma parentIndex_bound: "parentIndex items c = Some p \<Longrightarrow> p < length items"
  by (auto simp: parentIndex_def split: option.splits dest: findIndex_Some)

lemma isRoot_parentIndex: "isRoot items (items ! c) \<longleftrightarrow> parentIndex items c = None"
  by (simp add: isRoot_def parentIndex_def find_js_findIndex split: option.splits)

lemma populate_settles:
  assumes "populateThreadForItem opt items c = Some r"
  shows "\<exists>h. settles items c h"
  using assms
proof (induction rule: populate_cases)
  case (keyed items c k)
  then show ?case by (auto intro: settles.keyed)
next
  case (root items c)
  then have "parentIndex items c = None" by (simp add: parentIndex_def)
  with root show ?case by (blast intro: settles.root)
next
  case (broken items c pid)
  then have "parentIndex items c = None" by (simp add: parentIndex_def)
  with broken show ?case by (blast intro: settles.root)
next
  case (child items c pid p items')
  then obtain h where "settles items p h" by blast
  with child(1,2,3) have "settles items c (Suc h)"
    by (intro settles.child) (simp_all add: parentIndex_def)
  then show ?case ..
qed

lemma settles_unique: "settles items c h \<Longrightarrow> settles items c h' \<Longrightarrow> h = h'"
proof (induction arbitrary: h' rule: settles.induct)
  case (keyed c)
  then show ?case by (auto elim: settles.cases)
next
  case (root c)
  then show ?case by (auto elim: settles.cases)
next
  case (child c p h)
  from child.prems child.hyps(1,2) obtain h0 where "h' = Suc h0" "settles items p h0"
    by (auto elim: settles.cases)
  with child.IH show ?case by simp
qed

lemma populate_new_threads:
  assumes "populateThreadForItem opt items c = Some r"
  shows "\<forall>items' h j. r = Inr items' \<and> settles items c h \<and> j < length items
      \<and> item_order (items ! j) = None \<and> item_order (items' ! j) \<noteq> None
      \<longrightarrow> (\<exists>h'\<le>h. settles items j h')"
  using assms
proof (induction rule: populate_cases)
  case (keyed items c k)
  then show ?case by auto
next
  case (root items c)
  show ?case
  proof (intro allI impI, elim conjE)
    fix items' h j
    assume a: "Inr (setThread items c (rootThread opt items)) = Inr items'" "settles items c h"
      "j < length items" "item_order (items ! j) = None" "item_order (items' ! j) \<noteq> None"
    then have "j = c" by (cases "j = c") (auto simp: setThread_def)
    with a(2) show "\<exists>h'\<le>h. settles items j h'" by blast
  qed
next
  case (broken items c pid)
  show ?case
  proof (intro allI impI, elim conjE)
    fix items' h j
    assume a: "Inr (setThread items c (rootThread opt items)) = Inr items'" "settles items c h"
      "j < length items" "item_order (items ! j) = None" "item_order (items' ! j) \<noteq> None"
    then have "j = c" by (cases "j = c") (auto simp: setThread_def)
    with a(2) show "\<exists>h'\<le>h. settles items j h'" by blast
  qed
next
  case (child items c pid p items')
  show ?case
  proof (intro allI impI, elim conjE)
    fix items'' h j
    assume a: "Inr (setThread items' c (childThread opt items' p pid)) = Inr items''"
      "settles items c h" "j < length items" "item_order (items ! j) = None"
      "item_order (items'' ! j) \<noteq> None"
    have pi: "parentIndex items c = Some p" using child(2,3) by (simp add: parentIndex_def)
    from a(2) child(1) pi obtain h0 where h0: "h = Suc h0" "settles items p h0"
      by (auto elim: settles.cases)
    show "\<exists>h'\<le>h. settles items j h'"
    proof (cases "j = c")
      case True
      with a(2) show ?thesis by blast
    next
      case False
      with a(1,5) have "item_order (items' ! j) \<noteq> None" by (auto simp: setThread_def)
      with child.IH h0(2) a(3,4) obtain h' where "h' \<le> h0" "settles items j h'" by blast
      with h0(1) show ?thesis by (intro exI [of _ h']) simp
    qed
  qed
qed

lemma populate_no_overwrite:
  assumes "populateThreadForItem opt items p = Some (Inr items')"
    and "item_order (items ! c) = None" "parentIndex items c = Some p" "c < length items"
  shows "item_order (items' ! c) = None"
proof (rule ccontr)
  assume k: "item_order (items' ! c) \<noteq> None"
  from populate_settles [OF assms(1)] obtain h where h: "settles items p h" ..
  with assms(2,3) have c: "settles items c (Suc h)" by (intro settles.child)
  from populate_new_threads [OF assms(1)] h assms(2,4) k
  obtain h' where hh: "h' \<le> h" "settles items c h'" by blast
  from settles_unique [OF c hh(2)] hh(1) show False by simp
qed

lemma populate_induct [consumes 2, case_names keyed root child]:
  assumes run: "populateThreadForItem opt items c = Some r" and c: "c < length items"
    and keyed: "\<And>items c k. c < length items \<Longrightarrow> item_order (items ! c) = Some k \<Longrightarrow> P items c items"
    and root: "\<And>items c. c < length items \<Longrightarrow> item_order (items ! c) = None \<Longrightarrow>
        parentIndex items c = None \<Longrightarrow> P items c (setThread items c (rootThread opt items))"
    and child: "\<And>items c pid p items'. c < length items \<Longrightarrow> item_order (items ! c) = None \<Longrightarrow>
        item_parent (items ! c) = Some pid \<Longrightarrow> parentIndex items c = Some p \<Longrightarrow> p < length items \<Longrightarrow>
        item_id (items ! p) = pid \<Longrightarrow>
        populateThreadForItem opt items p = Some (Inr items') \<Longrightarrow> keeps items items' \<Longrightarrow>
        item_order (items' ! p) \<noteq> None \<Longrightarrow> item_order (items' ! c) = None \<Longrightarrow>
        P items p items' \<Longrightarrow>
        P items c (setThread items' c (childThread opt items' p pid))"
  shows "\<exists>items'. r = Inr items' \<and> P items c items'"
proof -
  from run have "c < length items \<longrightarrow> (\<exists>items'. r = Inr items' \<and> P items c items')"
  proof (induction rule: populate_cases)
    case (keyed items c k)
    then show ?case using assms(3) by simp
  next
    case (root items c)
    then show ?case using assms(4) by (simp add: parentIndex_def)
  next
    case (broken items c pid)
    then show ?case using assms(4) by (simp add: parentIndex_def)
  next
    case (child items c pid p items')
    show ?case
    proof
      assume c: "c < length items"
      have pi: "parentIndex items c = Some p" using child(2,3) by (simp add: parentIndex_def)
      from findIndex_Some [OF child(3)] have p: "p < length items" "item_id (items ! p) = pid"
        by simp_all
      from populate_keeps [OF child(4)] p(1) have k: "keeps items items'"
        "item_order (items' ! p) \<noteq> None" by simp_all
      from populate_no_overwrite [OF child(4) child(1) pi c]
      have n: "item_order (items' ! c) = None" .
      from child.IH p(1) have "P items p items'" by simp
      from assms(5) [OF c child(1,2) pi p child(4) k n this]
      show "\<exists>items''. Inr (setThread items' c (childThread opt items' p pid)) = Inr items''
          \<and> P items c items''" by simp
    qed
  qed
  with c show ?thesis by simp
qed

lemma climbs_settles: "climbs n items c \<Longrightarrow> \<exists>h. settles items c h"
proof (induction n arbitrary: c)
  case 0
  then show ?case
    by (cases "item_order (items ! c)") (auto intro: settles.keyed settles.root)
next
  case (Suc n)
  show ?case
  proof (cases "item_order (items ! c)")
    case None
    show ?thesis
    proof (cases "parentIndex items c")
      case None
      with \<open>item_order (items ! c) = None\<close> show ?thesis by (auto intro: settles.root)
    next
      case (Some p)
      with Suc.prems have "climbs n items p" by simp
      from Suc.IH [OF this] obtain h where "settles items p h" ..
      with \<open>item_order (items ! c) = None\<close> Some show ?thesis by (auto intro: settles.child)
    qed
  next
    case (Some k)
    then show ?thesis by (auto intro: settles.keyed)
  qed
qed

lemma settles_returns: "settles items c h \<Longrightarrow> \<exists>items'. populateThreadForItem opt items c = Some (Inr items')"
proof (induction rule: settles.induct)
  case (keyed c)
  then show ?case by (auto simp: populate_keyed_noop)
next
  case (root c)
  then show ?case by (simp add: populate_root isRoot_parentIndex)
next
  case (child c p h)
  then obtain items' where i': "populateThreadForItem opt items p = Some (Inr items')" by blast
  from child(2) obtain pid where pid: "item_parent (items ! c) = Some pid"
    "findIndex (\<lambda>i. item_id i = pid) items = Some p"
    by (auto simp: parentIndex_def split: option.splits)
  with child(1) i' show ?case
    by (simp add: populateThreadForItem.simps [of opt items c] find_js_findIndex)
qed

subsection \<open>A new thread lies under the thread of the parent\<close>

lemma less_append_self: "ys \<noteq> [] \<Longrightarrow> xs < xs @ (ys :: 'a :: linorder list)"
  using append_less_cancel [of xs "[]" ys] by (cases ys) simp_all

lemma underParent_childThread:
  assumes "item_order (items ! p) = Some kp"
  shows "underParent kp (childThread defaults items p pid)"
proof -
  define seg where "seg = padStart0 2 (toString36 (increment (childNumber defaults items pid)))"
  have seg: "seg \<noteq> []" by (auto simp: seg_def padStart0_def)
  have t: "childThread defaults items p pid = withoutEor kp @ ''/'' @ seg @ ''.''"
    using assms by (simp add: childThread_def threadString_def stripEor_defaults string_of_def
        defaults_fields seg_def)
  have w: "withoutEor (childThread defaults items p pid) = withoutEor kp @ ''/'' @ seg"
    unfolding t by (simp add: withoutEor_def butlast_append)
  have 1: "strict_prefix (withoutEor kp @ ''/'') (withoutEor (childThread defaults items p pid))"
    unfolding w using seg by (simp add: strict_prefix_def)
  have 2: "kp < childThread defaults items p pid"
  proof (cases "kp \<noteq> [] \<and> last kp = CHR ''.''")
    case True
    then have "kp = butlast kp @ ''.''" by (metis append_butlast_last_id)
    moreover from True have "withoutEor kp = butlast kp" by (simp add: withoutEor_def)
    ultimately have "kp = withoutEor kp @ ''.''" by simp
    moreover have "withoutEor kp @ ''.'' < withoutEor kp @ ''/'' @ seg @ ''.''"
      by (simp add: append_less_cancel)
    ultimately show ?thesis unfolding t by simp
  next
    case False
    then have "withoutEor kp = kp" by (auto simp: withoutEor_def)
    then show ?thesis unfolding t using less_append_self [of "''/'' @ seg @ ''.''" kp] by simp
  qed
  from 1 2 show ?thesis by (simp add: underParent_def)
qed

lemma setThread_nth:
  "c < length items \<Longrightarrow> setThread items c t ! j = (if j = c then (items ! c)\<lparr>item_order := Some t\<rparr> else items ! j)"
  by (simp add: setThread_def nth_list_update)

lemma setThread_length: "length (setThread items c t) = length items"
  by (simp add: setThread_def)

lemma keeps_unkeyed_back:
  "keeps items0 items \<Longrightarrow> c < length items0 \<Longrightarrow> item_order (items ! c) = None \<Longrightarrow> item_order (items0 ! c) = None"
  by (auto simp: keeps_def)

lemma populate_newUnderParent:
  assumes "populateThreadForItem defaults items c = Some r" "c < length items"
  shows "\<exists>items'. r = Inr items' \<and>
    (\<forall>items0. keeps items0 items \<and> newUnderParent items0 items \<longrightarrow> newUnderParent items0 items')"
  using assms
proof (induction rule: populate_induct)
  case (keyed items c k)
  then show ?case by simp
next
  case (root items c)
  show ?case
  proof (intro allI impI, elim conjE)
    fix items0
    assume k: "keeps items0 items" and n: "newUnderParent items0 items"
    have len: "length items0 = length items" using k by (simp add: keeps_def)
    show "newUnderParent items0 (setThread items c (rootThread defaults items))"
      unfolding newUnderParent_def
    proof (intro allI impI, elim conjE)
      fix d p
      assume d: "d < length items0" "item_order (items0 ! d) = None"
        "item_order (setThread items c (rootThread defaults items) ! d) \<noteq> None"
        "parentIndex items0 d = Some p"
      have pi: "parentIndex items d = Some p" using keeps_parentIndex [OF k d(1)] d(4) by simp
      with root(3) have dc: "d \<noteq> c" by auto
      with d(3) root(1) have dk: "item_order (items ! d) \<noteq> None" by (simp add: setThread_nth)
      with n d have pk: "item_order (items ! p) \<noteq> None"
        and up: "underParent (thread (items ! p)) (thread (items ! d))"
        by (auto simp: newUnderParent_def)
      from pk root(2) have pc: "p \<noteq> c" by auto
      from dc pc root(1) pk up
      show "item_order (setThread items c (rootThread defaults items) ! p) \<noteq> None \<and>
        underParent (thread (setThread items c (rootThread defaults items) ! p))
          (thread (setThread items c (rootThread defaults items) ! d))"
        by (simp add: setThread_nth)
    qed
  qed
next
  case (child items c pid p items')
  show ?case
  proof (intro allI impI, elim conjE)
    fix items0
    assume k: "keeps items0 items" and n: "newUnderParent items0 items"
    have len: "length items0 = length items" "length items' = length items"
      using k child(8) by (simp_all add: keeps_def)
    from child(11) k n have n': "newUnderParent items0 items'" by blast
    let ?t = "childThread defaults items' p pid"
    from child(9) obtain kp where kp: "item_order (items' ! p) = Some kp" by auto
    have pc: "p \<noteq> c" using child(9,10) by auto
    have c': "c < length items'" using child(1) len by simp
    show "newUnderParent items0 (setThread items' c ?t)"
      unfolding newUnderParent_def
    proof (intro allI impI, elim conjE)
      fix d q
      assume d: "d < length items0" "item_order (items0 ! d) = None"
        "item_order (setThread items' c ?t ! d) \<noteq> None"
        "parentIndex items0 d = Some q"
      have pi: "parentIndex items d = Some q" using keeps_parentIndex [OF k d(1)] d(4) by simp
      show "item_order (setThread items' c ?t ! q) \<noteq> None \<and>
        underParent (thread (setThread items' c ?t ! q)) (thread (setThread items' c ?t ! d))"
      proof (cases "d = c")
        case True
        with pi child(4) have "q = p" by simp
        with True pc c' kp underParent_childThread [OF kp, of pid] show ?thesis
          by (simp add: setThread_nth thread_def string_of_def)
      next
        case False
        with d(3) c' have dk: "item_order (items' ! d) \<noteq> None" by (simp add: setThread_nth)
        with n' d have qk: "item_order (items' ! q) \<noteq> None"
          and up: "underParent (thread (items' ! q)) (thread (items' ! d))"
          by (auto simp: newUnderParent_def)
        from qk child(10) have "q \<noteq> c" by auto
        with False c' qk up show ?thesis by (simp add: setThread_nth)
      qed
    qed
  qed
qed

lemma newUnderParent_refl: "newUnderParent items items"
  by (auto simp: newUnderParent_def)

lemma populateAll_newUnderParent:
  assumes "populateAll defaults cs items = Some r" "\<forall>c\<in>set cs. c < length items"
    "keeps items0 items" "newUnderParent items0 items"
  shows "\<exists>items'. r = Inr items' \<and> keeps items0 items' \<and> newUnderParent items0 items'"
  using assms
proof (induction cs arbitrary: items)
  case Nil
  then show ?case by auto
next
  case (Cons c cs)
  from Cons.prems(1) obtain r1 where r1: "populateThreadForItem defaults items c = Some r1"
    and rest: "(case r1 of Inl e \<Rightarrow> Some (Inl e) | Inr items' \<Rightarrow> populateAll defaults cs items') = Some r"
    by (auto simp: bind_eq_Some_conv)
  from Cons.prems(2) have c: "c < length items" by simp
  from populate_newUnderParent [OF r1 c] Cons.prems(3,4) obtain items1 where
    i1: "r1 = Inr items1" "newUnderParent items0 items1" by blast
  from populate_keeps [OF r1] i1(1) have k1: "keeps items items1" by simp
  then have len: "length items1 = length items" by (simp add: keeps_def)
  from rest i1(1) have "populateAll defaults cs items1 = Some r" by simp
  from Cons.IH [OF this _ keeps_trans [OF Cons.prems(3) k1] i1(2)] Cons.prems(2) len
  show ?case by simp
qed

section \<open>The keying pass keeps a collection consistent\<close>

lemma finite_keyedSiblings: "finite (keyedSiblings items c)"
  by (simp add: keyedSiblings_def)

lemma siblingCount_card:
  "siblingCount items c = card {d. d < length items \<and> parentIndex items d = parentIndex items c}"
proof -
  have "{d. d < length items \<and> parentIndex items d = parentIndex items c}
      = set (filter (\<lambda>d. parentIndex items d = parentIndex items c) [0..<length items])"
    by auto
  then show ?thesis
    by (simp add: siblingCount_def distinct_card del: set_filter)
qed

lemma keyedSiblings_less:
  assumes "siblingsBounded items" "c < length items" "item_order (items ! c) = None"
  shows "card (keyedSiblings items c) < 1296"
proof -
  let ?A = "{d. d < length items \<and> parentIndex items d = parentIndex items c}"
  have "keyedSiblings items c \<subseteq> ?A - {c}" using assms(3) by (auto simp: keyedSiblings_def)
  moreover have "finite (?A - {c})" by simp
  ultimately have "card (keyedSiblings items c) \<le> card (?A - {c})" by (rule card_mono [rotated])
  moreover have "c \<in> ?A" using assms(2) by simp
  then have "card (?A - {c}) < card ?A" by (intro card_Diff1_less) simp_all
  moreover have "card ?A \<le> 1296"
    using assms(1,2) by (simp add: siblingsBounded_def list_all_iff siblingCount_card)
  ultimately show ?thesis by simp
qed

lemma setThread_keeps: "item_order (items ! c) = None \<Longrightarrow> keeps items (setThread items c t)"
  by (rule keeps_setThread [OF keeps_refl])

lemma setThread_parentIndex:
  "item_order (items ! c) = None \<Longrightarrow> d < length items \<Longrightarrow>
   parentIndex (setThread items c t) d = parentIndex items d"
  by (rule keeps_parentIndex [OF setThread_keeps])

lemma keyedSiblings_setThread:
  assumes "c < length items" "item_order (items ! c) = None" "e < length items"
  shows "keyedSiblings (setThread items c t) e =
    (if parentIndex items c = parentIndex items e then insert c (keyedSiblings items e)
     else keyedSiblings items e)"
proof -
  have "d \<in> keyedSiblings (setThread items c t) e \<longleftrightarrow>
      d \<in> (if parentIndex items c = parentIndex items e then insert c (keyedSiblings items e)
            else keyedSiblings items e)" for d
  proof (cases "d < length items")
    case True
    with assms show ?thesis
      by (cases "d = c")
        (auto simp: keyedSiblings_def setThread_length setThread_nth setThread_parentIndex)
  next
    case False
    with assms show ?thesis
      by (auto simp: keyedSiblings_def setThread_length)
  qed
  then show ?thesis by blast
qed

lemma itemPath_setThread:
  "c < length items \<Longrightarrow> itemPath (setThread items c t ! c) = keyPath t"
  "c < length items \<Longrightarrow> thread (setThread items c t ! c) = t"
  by (simp_all add: setThread_nth itemPath_def thread_def string_of_def)

lemma consistent_step:
  assumes con: "consistent items" and c: "c < length items" and un: "item_order (items ! c) = None"
    and q: "q \<noteq> []" "\<forall>j\<in>set q. j < 1296"
    and par: "case parentIndex items c of None \<Rightarrow> length q = 1
        | Some p \<Rightarrow> item_order (items ! p) \<noteq> None \<and> butlast q = itemPath (items ! p)"
    and num: "last q \<le> card (keyedSiblings items c)"
    and above: "\<forall>d\<in>keyedSiblings items c. siblingNumber (items ! d) < last q"
  shows "consistent (setThread items c (pathKey q))"
  unfolding consistent_def
proof (intro allI impI)
  let ?new = "setThread items c (pathKey q)"
  fix e
  assume e: "e < length ?new" and ek: "item_order (?new ! e) \<noteq> None"
  then have e': "e < length items" by (simp add: setThread_length)
  have kq: "keyPath (pathKey q) = q" using q by (rule keyPath_pathKey)
  have cnot: "c \<notin> keyedSiblings items e" for e using un by (simp add: keyedSiblings_def)
  have ip: "itemPath (?new ! c) = q" using c by (simp add: itemPath_setThread kq)
  have oth: "?new ! p = items ! p" if "p \<noteq> c" for p using c that by (simp add: setThread_nth)
  show "wellFormed (thread (?new ! e)) \<and>
        (case parentIndex ?new e of
           None \<Rightarrow> length (itemPath (?new ! e)) = 1
         | Some p \<Rightarrow> item_order (?new ! p) \<noteq> None \<and> butlast (itemPath (?new ! e)) = itemPath (?new ! p)) \<and>
        siblingNumber (?new ! e) < card (keyedSiblings ?new e) \<and>
        (\<forall>d\<in>keyedSiblings ?new e. siblingNumber (?new ! d) = siblingNumber (?new ! e) \<longrightarrow> d = e)"
  proof (cases "e = c")
    case True
    have 1: "wellFormed (thread (?new ! e))"
      using True c q by (simp add: itemPath_setThread wellFormed_pathKey)
    have pc: "p \<noteq> c" if "parentIndex items c = Some p" for p
      using par that un by auto
    have 2: "case parentIndex ?new e of
           None \<Rightarrow> length (itemPath (?new ! e)) = 1
         | Some p \<Rightarrow> item_order (?new ! p) \<noteq> None \<and> butlast (itemPath (?new ! e)) = itemPath (?new ! p)"
      using True c un par pc ip oth
      by (auto simp: setThread_parentIndex split: option.splits)
    have card: "card (keyedSiblings ?new e) = Suc (card (keyedSiblings items c))"
      using True c un cnot [of c]
      by (simp add: keyedSiblings_setThread finite_keyedSiblings)
    have 3: "siblingNumber (?new ! e) < card (keyedSiblings ?new e)"
      using True c num card by (simp add: siblingNumber_def ip)
    have 4: "\<forall>d\<in>keyedSiblings ?new e. siblingNumber (?new ! d) = siblingNumber (?new ! e) \<longrightarrow> d = e"
    proof (intro ballI impI)
      fix d
      assume d: "d \<in> keyedSiblings ?new e" "siblingNumber (?new ! d) = siblingNumber (?new ! e)"
      show "d = e"
      proof (rule ccontr)
        assume "d \<noteq> e"
        with d(1) True c un have dk: "d \<in> keyedSiblings items c"
          by (simp add: keyedSiblings_setThread)
        with above have "siblingNumber (items ! d) < last q" by blast
        moreover from \<open>d \<noteq> e\<close> True c have "?new ! d = items ! d" by (simp add: setThread_nth)
        ultimately show False
          using d(2) True c by (simp add: siblingNumber_def ip)
      qed
    qed
    from 1 2 3 4 show ?thesis by blast
  next
    case False
    with c have same: "?new ! e = items ! e" by (simp add: setThread_nth)
    with ek have eo: "item_order (items ! e) \<noteq> None" by simp
    from con e' eo have old: "wellFormed (thread (items ! e))"
      "case parentIndex items e of
           None \<Rightarrow> length (itemPath (items ! e)) = 1
         | Some p \<Rightarrow> item_order (items ! p) \<noteq> None \<and> butlast (itemPath (items ! e)) = itemPath (items ! p)"
      "siblingNumber (items ! e) < card (keyedSiblings items e)"
      "\<forall>d\<in>keyedSiblings items e. siblingNumber (items ! d) = siblingNumber (items ! e) \<longrightarrow> d = e"
      by (simp_all add: consistent_def)
    have pc: "p \<noteq> c" if "parentIndex items e = Some p" for p
      using old(2) that un by auto
    have 2: "case parentIndex ?new e of
           None \<Rightarrow> length (itemPath (?new ! e)) = 1
         | Some p \<Rightarrow> item_order (?new ! p) \<noteq> None \<and> butlast (itemPath (?new ! e)) = itemPath (?new ! p)"
      using old(2) pc c un e' same
      by (auto simp: setThread_parentIndex setThread_nth split: option.splits)
    have "card (keyedSiblings items e) \<le> card (keyedSiblings ?new e)"
      using c un e' by (auto simp: keyedSiblings_setThread finite_keyedSiblings card_insert_if)
    with old(3) same have 3: "siblingNumber (?new ! e) < card (keyedSiblings ?new e)" by simp
    have 4: "\<forall>d\<in>keyedSiblings ?new e. siblingNumber (?new ! d) = siblingNumber (?new ! e) \<longrightarrow> d = e"
    proof (intro ballI impI)
      fix d
      assume d: "d \<in> keyedSiblings ?new e" "siblingNumber (?new ! d) = siblingNumber (?new ! e)"
      show "d = e"
      proof (cases "d = c")
        case True
        with d(1) c un e' have pe: "parentIndex items c = parentIndex items e"
          using cnot [of e] by (auto simp: keyedSiblings_setThread split: if_splits)
        with e' eo have "e \<in> keyedSiblings items c" by (simp add: keyedSiblings_def)
        with above have "siblingNumber (items ! e) < last q" by blast
        with d(2) True c same show ?thesis
          by (simp add: siblingNumber_def ip)
      next
        case dc: False
        with d(1) c un e' have "d \<in> keyedSiblings items e"
          by (auto simp: keyedSiblings_setThread split: if_splits)
        moreover from dc c have "?new ! d = items ! d" by (simp add: setThread_nth)
        ultimately show ?thesis using old(4) d(2) same by simp
      qed
    qed
    from old(1) same 2 3 4 show ?thesis by simp
  qed
qed

lemma pathKey_nonempty: "pathKey p \<noteq> []"
  by (simp add: pathKey_def)

lemma consistent_at:
  assumes "consistent items" "d < length items" "item_order (items ! d) \<noteq> None"
  shows "wellFormed (thread (items ! d))"
    and "parentIndex items d = None \<Longrightarrow> length (itemPath (items ! d)) = 1"
    and "parentIndex items d = Some p \<Longrightarrow>
      item_order (items ! p) \<noteq> None \<and> butlast (itemPath (items ! d)) = itemPath (items ! p)"
    and "siblingNumber (items ! d) < card (keyedSiblings items d)"
    and "e \<in> keyedSiblings items d \<Longrightarrow> siblingNumber (items ! e) = siblingNumber (items ! d) \<Longrightarrow> e = d"
proof -
  from assms have all: "wellFormed (thread (items ! d)) \<and>
        (case parentIndex items d of
           None \<Rightarrow> length (itemPath (items ! d)) = 1
         | Some p \<Rightarrow> item_order (items ! p) \<noteq> None \<and> butlast (itemPath (items ! d)) = itemPath (items ! p)) \<and>
        siblingNumber (items ! d) < card (keyedSiblings items d) \<and>
        (\<forall>e\<in>keyedSiblings items d. siblingNumber (items ! e) = siblingNumber (items ! d) \<longrightarrow> e = d)"
    unfolding consistent_def by blast
  from all show "wellFormed (thread (items ! d))" by blast
  from all show "parentIndex items d = None \<Longrightarrow> length (itemPath (items ! d)) = 1" by simp
  from all show "parentIndex items d = Some p \<Longrightarrow>
      item_order (items ! p) \<noteq> None \<and> butlast (itemPath (items ! d)) = itemPath (items ! p)" by simp
  from all show "siblingNumber (items ! d) < card (keyedSiblings items d)" by blast
  from all show "e \<in> keyedSiblings items d \<Longrightarrow> siblingNumber (items ! e) = siblingNumber (items ! d) \<Longrightarrow> e = d"
    by blast
qed

lemma consistent_keyed:
  assumes "consistent items" "d < length items" "item_order (items ! d) \<noteq> None"
  shows "thread (items ! d) = pathKey (itemPath (items ! d))"
    and "itemPath (items ! d) \<noteq> []"
    and "\<forall>j\<in>set (itemPath (items ! d)). j < 1296"
    and "item_order (items ! d) = Some (thread (items ! d))"
    and "thread (items ! d) \<noteq> []"
proof -
  from assms have wf: "wellFormed (thread (items ! d))" by (rule consistent_at(1))
  from wellFormed_path [OF wf]
  show 1: "thread (items ! d) = pathKey (itemPath (items ! d))"
    and "itemPath (items ! d) \<noteq> []" and "\<forall>j\<in>set (itemPath (items ! d)). j < 1296"
    by (simp_all add: itemPath_def)
  from assms(3) show "item_order (items ! d) = Some (thread (items ! d))"
    by (auto simp: thread_def string_of_def)
  from 1 show "thread (items ! d) \<noteq> []" using pathKey_nonempty by simp
qed

lemma threads_consistent:
  assumes "consistent items"
  shows "threads items = {thread (items ! d) | d. d < length items \<and> item_order (items ! d) \<noteq> None}"
proof (intro set_eqI iffI)
  fix k
  assume "k \<in> threads items"
  then obtain x where x: "x \<in> set items" "item_order x = Some k" by (auto simp: threads_def)
  then obtain d where "d < length items" "x = items ! d" by (auto simp: in_set_conv_nth)
  with x show "k \<in> {thread (items ! d) | d. d < length items \<and> item_order (items ! d) \<noteq> None}"
    by (auto simp: thread_def string_of_def intro!: exI [of _ d])
next
  fix k
  assume "k \<in> {thread (items ! d) | d. d < length items \<and> item_order (items ! d) \<noteq> None}"
  then obtain d where d: "d < length items" "item_order (items ! d) \<noteq> None" "k = thread (items ! d)"
    by blast
  from consistent_keyed(4,5) [OF assms d(1,2)] d show "k \<in> threads items"
    by (auto simp: threads_def)
qed

lemma finite_threads: "finite (threads items)"
proof -
  have "threads items \<subseteq> thread ` set items"
    by (auto simp: threads_def thread_def string_of_def image_iff) force
  then show ?thesis by (rule finite_subset) simp
qed

lemma finite_siblingThreads: "finite (siblingThreads items pid)"
proof -
  have "siblingThreads items pid \<subseteq> threads items"
    by (auto simp: threads_def siblingThreads_def)
  then show ?thesis using finite_threads by (rule finite_subset)
qed

lemma root_ancestor:
  assumes "consistent items"
  shows "d < length items \<Longrightarrow> item_order (items ! d) \<noteq> None \<Longrightarrow> length (itemPath (items ! d)) = n \<Longrightarrow>
    \<exists>r<length items. item_order (items ! r) \<noteq> None \<and> parentIndex items r = None
      \<and> itemPath (items ! r) = [hd (itemPath (items ! d))]"
proof (induction n arbitrary: d rule: less_induct)
  case (less n)
  note ne = consistent_keyed(2) [OF assms less.prems(1,2)]
  show ?case
  proof (cases "parentIndex items d")
    case None
    with assms less.prems have "length (itemPath (items ! d)) = 1" by (intro consistent_at(2))
    then have "itemPath (items ! d) = [hd (itemPath (items ! d))]"
      by (cases "itemPath (items ! d)") simp_all
    with None less.prems show ?thesis by blast
  next
    case (Some p)
    from consistent_at(3) [OF assms less.prems(1,2) Some] have p: "item_order (items ! p) \<noteq> None"
      "butlast (itemPath (items ! d)) = itemPath (items ! p)"
      by simp_all
    from Some have pl: "p < length items" by (rule parentIndex_bound)
    note pne = consistent_keyed(2) [OF assms pl p(1)]
    have "length (itemPath (items ! p)) < n"
      using p(2) [symmetric] ne less.prems(3) by (cases "itemPath (items ! d)") auto
    from less.IH [OF this pl p(1) refl] obtain r where
      r: "r < length items" "item_order (items ! r) \<noteq> None" "parentIndex items r = None"
        "itemPath (items ! r) = [hd (itemPath (items ! p))]" by blast
    have "hd (itemPath (items ! p)) = hd (itemPath (items ! d))"
      using p(2) [symmetric] pne by (cases "itemPath (items ! d)") (auto split: if_splits)
    with r show ?thesis by auto
  qed
qed

lemma keyedSiblings_cong:
  "parentIndex items c = parentIndex items e \<Longrightarrow> keyedSiblings items c = keyedSiblings items e"
  by (simp add: keyedSiblings_def)

lemma firstSegment_join:
  assumes "xs \<noteq> []" "CHR ''/'' \<notin> set (hd xs)"
  shows "firstSegment (join_js ''/'' xs) = hd xs"
proof (cases xs)
  case Nil
  with assms show ?thesis by simp
next
  case (Cons x ys)
  with assms(2) have x: "\<forall>d\<in>set x. d \<noteq> CHR ''/''" by auto
  show ?thesis
  proof (cases ys)
    case Nil
    with Cons x show ?thesis by (simp add: firstSegment_def)
  next
    case (Cons y zs)
    with \<open>xs = x # ys\<close> x show ?thesis
      by (simp add: firstSegment_def takeWhile_append2)
  qed
qed

lemma increment_Num: "increment (Num (int m)) = Num (int (Suc m))"
  by (simp add: increment_def)

lemma threadString_segment:
  "threadString defaults pfx (Num (int m)) = pfx @ segment (Suc m) @ ''.''"
  "threadString defaults pfx (Num (- 1)) = pfx @ segment 0 @ ''.''"
  by (simp_all add: threadString_def increment_def segment_def defaults_fields add.commute)

lemma single_le_path: "[a] \<le> q \<Longrightarrow> q \<noteq> [] \<Longrightarrow> a \<le> hd (q :: nat list)"
  by (cases q) auto

lemma rootThread_consistent:
  assumes con: "consistent items" and bnd: "siblingsBounded items"
    and c: "c < length items" and un: "item_order (items ! c) = None"
    and root: "parentIndex items c = None"
  shows "\<exists>m. rootThread defaults items = pathKey [m] \<and> m < 1296
      \<and> m \<le> card (keyedSiblings items c)
      \<and> (\<forall>d\<in>keyedSiblings items c. siblingNumber (items ! d) < m)"
proof (cases "threads items = {}")
  case True
  have "keyedSiblings items c = {}"
  proof (rule ccontr)
    assume "keyedSiblings items c \<noteq> {}"
    then obtain d where "d < length items" "item_order (items ! d) \<noteq> None"
      by (auto simp: keyedSiblings_def)
    then have "thread (items ! d) \<in> threads items"
      unfolding threads_consistent [OF con] by blast
    with True show False by simp
  qed
  moreover have "rootThread defaults items = pathKey [0]"
    using True by (simp add: rootThread_def rootNumber_defaults threadString_segment pathKey_single)
  ultimately show ?thesis by (intro exI [of _ 0]) simp
next
  case False
  define M where "M = Max (threads items)"
  have "M \<in> threads items" unfolding M_def using finite_threads False by (rule Max_in)
  then obtain d where d: "d < length items" "item_order (items ! d) \<noteq> None" "M = thread (items ! d)"
    unfolding threads_consistent [OF con] by blast
  define P where "P = itemPath (items ! d)"
  note dk = consistent_keyed [OF con d(1,2), folded P_def]
  have MP: "M = pathKey P" using d(3) dk(1) by simp
  have hP: "hd P < 1296" using dk(2,3) by (cases P) simp_all
  have w: "withoutEor M = join_js ''/'' (map segment P)" unfolding MP by (rule withoutEor_pathKey)
  have fs: "firstSegment (withoutEor M) = segment (hd P)"
    unfolding w using dk(2) segment_no_delimiter
    by (subst firstSegment_join) (simp_all add: hd_map)
  have wne: "withoutEor M \<noteq> []"
    unfolding w using dk(2) hP by (cases P rule: list.exhaust; cases "tl P") (auto simp: segment_small)
  have rt: "rootThread defaults items = pathKey [Suc (hd P)]"
    using False wne fs hP
    by (simp add: rootThread_def rootNumber_defaults M_def [symmetric] parseInt36_segment
        threadString_segment pathKey_single)
  from root_ancestor [OF con d(1,2) refl] obtain r where
    r: "r < length items" "item_order (items ! r) \<noteq> None" "parentIndex items r = None"
      "itemPath (items ! r) = [hd P]" unfolding P_def by blast
  have "siblingNumber (items ! r) < card (keyedSiblings items r)"
    using con r(1,2) by (rule consistent_at(4))
  moreover have "keyedSiblings items r = keyedSiblings items c"
    by (rule keyedSiblings_cong) (simp add: r(3) root)
  ultimately have le: "Suc (hd P) \<le> card (keyedSiblings items c)"
    using r(4) by (simp add: siblingNumber_def)
  with keyedSiblings_less [OF bnd c un] have lt: "Suc (hd P) < 1296" by simp
  have above: "siblingNumber (items ! e) < Suc (hd P)" if e: "e \<in> keyedSiblings items c" for e
  proof -
    from e root have e': "e < length items" "item_order (items ! e) \<noteq> None" "parentIndex items e = None"
      by (simp_all add: keyedSiblings_def)
    note ek = consistent_keyed [OF con e'(1,2)]
    from con e' have "length (itemPath (items ! e)) = 1" by (rule consistent_at(2))
    then have ip: "itemPath (items ! e) = [siblingNumber (items ! e)]"
      by (cases "itemPath (items ! e)") (simp_all add: siblingNumber_def)
    have "thread (items ! e) \<in> threads items"
      unfolding threads_consistent [OF con] using e'(1,2) by blast
    then have "thread (items ! e) \<le> M" unfolding M_def using finite_threads by (intro Max_ge)
    then have "pathKey (itemPath (items ! e)) \<le> pathKey P" using ek(1) MP by simp
    then have "itemPath (items ! e) \<le> P"
      using pathKey_le_iff [OF ek(2) dk(2) ek(3) dk(3)] by simp
    with ip dk(2) have "siblingNumber (items ! e) \<le> hd P" by (simp add: single_le_path)
    then show ?thesis by simp
  qed
  from rt lt le above show ?thesis by blast
qed

lemma part_string_last: "parts \<noteq> [] \<Longrightarrow> part_string parts (int (length parts) - 1) = last parts"
  by (cases parts rule: rev_cases) (simp_all add: part_string_def string_of_def nth_append)

lemma split_js_nonempty: "split_js [c] s \<noteq> []"
  using split_js_length [of c s] by auto

lemma childNumber_defaults:
  "childNumber defaults items pid =
     (if siblingThreads items pid = {} then Num (- 1)
      else parseInt36 (last (split_js ''/'' (withoutEor (withoutEor (Max (siblingThreads items pid)))))))"
  by (simp add: childNumber_def getMaxThreadPerThread_Max stripEor_None stripEor_defaults
      defaults_fields Let_def part_string_last split_js_nonempty)

lemma siblingThreads_consistent:
  assumes con: "consistent items" and c: "c < length items"
    and pid: "item_parent (items ! c) = Some pid" and pi: "parentIndex items c = Some p"
    and idp: "item_id (items ! p) = pid"
  shows "siblingThreads items pid = {thread (items ! d) | d. d \<in> keyedSiblings items c}"
proof (intro set_eqI iffI)
  fix k
  assume "k \<in> siblingThreads items pid"
  then obtain x where x: "x \<in> set items" "item_parent x = Some pid" "item_order x = Some k"
    by (auto simp: siblingThreads_def)
  then obtain d where d: "d < length items" "x = items ! d" by (auto simp: in_set_conv_nth)
  have "parentIndex items d = parentIndex items c"
    using x(2) d(2) pid by (simp add: parentIndex_def)
  with d x(3) have "d \<in> keyedSiblings items c" by (simp add: keyedSiblings_def)
  moreover from x(3) d(2) have "k = thread (items ! d)" by (simp add: thread_def string_of_def)
  ultimately show "k \<in> {thread (items ! d) | d. d \<in> keyedSiblings items c}" by blast
next
  fix k
  assume "k \<in> {thread (items ! d) | d. d \<in> keyedSiblings items c}"
  then obtain d where d: "d < length items" "item_order (items ! d) \<noteq> None"
    "parentIndex items d = Some p" "k = thread (items ! d)"
    using pi by (auto simp: keyedSiblings_def)
  from d(3) obtain pid' where pid': "item_parent (items ! d) = Some pid'"
    "findIndex (\<lambda>i. item_id i = pid') items = Some p"
    by (auto simp: parentIndex_def split: option.splits)
  from findIndex_Some [OF pid'(2)] idp have "pid' = pid" by simp
  with pid' have "item_parent (items ! d) = Some pid" by simp
  moreover note consistent_keyed(4,5) [OF con d(1,2)]
  moreover have "items ! d \<in> set items" using d(1) by simp
  ultimately show "k \<in> siblingThreads items pid"
    unfolding siblingThreads_def d(4) by blast
qed

lemma consistent_child_path:
  assumes "consistent items" "d \<in> keyedSiblings items c" "parentIndex items c = Some p"
  shows "itemPath (items ! d) = itemPath (items ! p) @ [siblingNumber (items ! d)]"
proof -
  from assms(2,3) have d: "d < length items" "item_order (items ! d) \<noteq> None"
    "parentIndex items d = Some p" by (simp_all add: keyedSiblings_def)
  from consistent_at(3) [OF assms(1) d] have "butlast (itemPath (items ! d)) = itemPath (items ! p)"
    by simp
  with append_butlast_last_id [OF consistent_keyed(2) [OF assms(1) d(1,2)]] show ?thesis
    by (simp add: siblingNumber_def)
qed

lemma append_single_le: "P @ [a] \<le> P @ [b] \<Longrightarrow> a \<le> (b :: nat)"
  by (induction P) auto

lemma join_segments_last:
  assumes "P \<noteq> []" "\<forall>j\<in>set P. j < 1296"
  shows "join_js ''/'' (map segment P) \<noteq> []" "last (join_js ''/'' (map segment P)) \<noteq> CHR ''.''"
proof -
  obtain Q m where P: "P = Q @ [m]" using assms(1) by (cases P rule: rev_cases) auto
  with assms(2) have m: "m < 1296" by simp
  have "join_js ''/'' (map segment P) = (if Q = [] then segment m else join_js ''/'' (map segment Q) @ ''/'' @ segment m)"
    unfolding P by (simp add: join_js_snoc)
  with segment_last [OF m]
  show "join_js ''/'' (map segment P) \<noteq> []" "last (join_js ''/'' (map segment P)) \<noteq> CHR ''.''"
    by (auto split: if_splits)
qed

lemma withoutEor_twice:
  assumes "P \<noteq> []" "\<forall>j\<in>set P. j < 1296"
  shows "withoutEor (withoutEor (pathKey P)) = join_js ''/'' (map segment P)"
  using join_segments_last [OF assms] by (simp add: withoutEor_pathKey) (simp add: withoutEor_def)

lemma childThread_consistent:
  assumes con: "consistent items" and bnd: "siblingsBounded items"
    and c: "c < length items" and un: "item_order (items ! c) = None"
    and pid: "item_parent (items ! c) = Some pid" and pi: "parentIndex items c = Some p"
    and idp: "item_id (items ! p) = pid" and pk: "item_order (items ! p) \<noteq> None"
  shows "\<exists>m. childThread defaults items p pid = pathKey (itemPath (items ! p) @ [m]) \<and> m < 1296
      \<and> m \<le> card (keyedSiblings items c)
      \<and> (\<forall>d\<in>keyedSiblings items c. siblingNumber (items ! d) < m)"
proof -
  define P where "P = itemPath (items ! p)"
  have pl: "p < length items" using pi by (rule parentIndex_bound)
  note pc = consistent_keyed [OF con pl pk, folded P_def]
  have pfx: "string_of (stripEor defaults (item_order (items ! p))) @ delimiter defaults
      = butlast (pathKey P) @ ''/''"
    using pc(4) pc(1) by (simp add: stripEor_defaults string_of_def defaults_fields
        withoutEor_pathKey) (simp add: pathKey_def butlast_append)
  have ct: "childThread defaults items p pid = pathKey (P @ [m])"
    if "threadString defaults (butlast (pathKey P) @ ''/'') (childNumber defaults items pid)
        = butlast (pathKey P) @ ''/'' @ segment m @ ''.''" for m
    using that pc(2) by (simp add: childThread_def pfx P_def [symmetric] pathKey_snoc)
  note st = siblingThreads_consistent [OF con c pid pi idp]
  show ?thesis
  proof (cases "keyedSiblings items c = {}")
    case True
    with st have "siblingThreads items pid = {}" by simp
    then have "childNumber defaults items pid = Num (- 1)" by (simp add: childNumber_defaults)
    then have "childThread defaults items p pid = pathKey (P @ [0])"
      by (intro ct) (simp add: threadString_segment)
    with True show ?thesis unfolding P_def by (intro exI [of _ 0]) simp
  next
    case False
    then have ne: "siblingThreads items pid \<noteq> {}" using st by auto
    define M where "M = Max (siblingThreads items pid)"
    have "M \<in> siblingThreads items pid" unfolding M_def using finite_siblingThreads ne by (rule Max_in)
    then obtain d where d: "d \<in> keyedSiblings items c" "M = thread (items ! d)"
      unfolding st by blast
    from d(1) have d': "d < length items" "item_order (items ! d) \<noteq> None"
      by (simp_all add: keyedSiblings_def)
    note dk = consistent_keyed [OF con d']
    define m where "m = siblingNumber (items ! d)"
    have dp: "itemPath (items ! d) = P @ [m]"
      unfolding P_def m_def by (rule consistent_child_path [OF con d(1) pi])
    have m: "m < 1296" using dk(3) dp by simp
    have MP: "M = pathKey (P @ [m])" using d(2) dk(1) dp by simp
    have bounded: "P @ [m] \<noteq> []" "\<forall>j\<in>set (P @ [m]). j < 1296" using dk(3) dp by simp_all
    have "split_js ''/'' (withoutEor (withoutEor M)) = map segment (P @ [m])"
      unfolding MP withoutEor_twice [OF bounded]
      by (rule split_join) (use segment_no_delimiter in auto)
    then have "childNumber defaults items pid = Num (int m)"
      using ne m by (simp add: childNumber_defaults M_def [symmetric] parseInt36_segment)
    then have cth: "childThread defaults items p pid = pathKey (P @ [Suc m])"
      by (intro ct) (simp add: threadString_segment)
    have "m < card (keyedSiblings items d)"
      unfolding m_def using con d' by (rule consistent_at(4))
    moreover have "keyedSiblings items d = keyedSiblings items c"
      by (rule keyedSiblings_cong) (use d(1) in \<open>simp add: keyedSiblings_def\<close>)
    ultimately have le: "Suc m \<le> card (keyedSiblings items c)" by simp
    with keyedSiblings_less [OF bnd c un] have lt: "Suc m < 1296" by simp
    have above: "siblingNumber (items ! e) < Suc m" if e: "e \<in> keyedSiblings items c" for e
    proof -
      from e have e': "e < length items" "item_order (items ! e) \<noteq> None"
        by (simp_all add: keyedSiblings_def)
      note ek = consistent_keyed [OF con e']
      have ep: "itemPath (items ! e) = P @ [siblingNumber (items ! e)]"
        unfolding P_def by (rule consistent_child_path [OF con e pi])
      have "thread (items ! e) \<in> siblingThreads items pid" unfolding st using e by blast
      then have "thread (items ! e) \<le> M"
        unfolding M_def using finite_siblingThreads by (intro Max_ge)
      then have "pathKey (itemPath (items ! e)) \<le> pathKey (itemPath (items ! d))"
        using ek(1) dk(1) d(2) by simp
      then have "itemPath (items ! e) \<le> itemPath (items ! d)"
        using pathKey_le_iff [OF ek(2) dk(2) ek(3) dk(3)] by simp
      then have "siblingNumber (items ! e) \<le> m" unfolding ep dp by (rule append_single_le)
      then show ?thesis by simp
    qed
    from cth lt le above show ?thesis unfolding P_def by blast
  qed
qed

lemma siblingsBounded_keeps:
  assumes "keeps items items'" "siblingsBounded items"
  shows "siblingsBounded items'"
proof -
  have len: "length items' = length items" using assms(1) by (simp add: keeps_def)
  have "siblingCount items' c = siblingCount items c" if "c < length items" for c
    unfolding siblingCount_def len
    by (rule arg_cong [where f = length], rule filter_cong)
      (use that keeps_parentIndex [OF assms(1)] in auto)
  with assms(2) show ?thesis by (simp add: siblingsBounded_def list_all_iff len)
qed

lemma populate_consistent:
  assumes "populateThreadForItem defaults items c = Some r" "c < length items"
  shows "\<exists>items'. r = Inr items' \<and> (consistent items \<and> siblingsBounded items \<longrightarrow> consistent items')"
  using assms
proof (induction rule: populate_induct)
  case (keyed items c k)
  then show ?case by simp
next
  case (root items c)
  show ?case
  proof
    assume a: "consistent items \<and> siblingsBounded items"
    from rootThread_consistent [OF _ _ root] a obtain m where
      m: "rootThread defaults items = pathKey [m]" "m < 1296" "m \<le> card (keyedSiblings items c)"
        "\<forall>d\<in>keyedSiblings items c. siblingNumber (items ! d) < m" by blast
    have "consistent (setThread items c (pathKey [m]))"
      by (rule consistent_step [where q = "[m]"]) (use a root m in simp_all)
    with m(1) show "consistent (setThread items c (rootThread defaults items))" by simp
  qed
next
  case (child items c pid p items')
  show ?case
  proof
    assume a: "consistent items \<and> siblingsBounded items"
    with child(11) have con: "consistent items'" by simp
    from a child(8) have bnd: "siblingsBounded items'" by (simp add: siblingsBounded_keeps)
    have len: "length items' = length items" using child(8) by (simp add: keeps_def)
    have c': "c < length items'" using child(1) len by simp
    have pid': "item_parent (items' ! c) = Some pid" using child(8,1,3) by (simp add: keeps_def)
    have pi': "parentIndex items' c = Some p"
      using keeps_parentIndex [OF child(8,1)] child(4) by simp
    have idp': "item_id (items' ! p) = pid" using child(8,5,6) by (simp add: keeps_def)
    from childThread_consistent [OF con bnd c' child(10) pid' pi' idp' child(9)] obtain m where
      m: "childThread defaults items' p pid = pathKey (itemPath (items' ! p) @ [m])" "m < 1296"
        "m \<le> card (keyedSiblings items' c)"
        "\<forall>d\<in>keyedSiblings items' c. siblingNumber (items' ! d) < m" by blast
    have pl: "p < length items'" using child(5) len by simp
    note pc = consistent_keyed [OF con pl child(9)]
    have "consistent (setThread items' c (pathKey (itemPath (items' ! p) @ [m])))"
      by (rule consistent_step [OF con c' child(10)]) (use pc m pi' child(9) in simp_all)
    with m(1) show "consistent (setThread items' c (childThread defaults items' p pid))" by simp
  qed
qed

section \<open>The claims\<close>

text \<open>
  C2.  \<open>sortThread\<close> is idempotent: when a call has returned the array \<open>res\<close>, a second
  call on \<open>res\<close> runs the keying pass without assigning any thread (the pass returns
  \<open>res\<close> itself, every object as it was) and returns the objects in the same order.
\<close>

theorem sortThread_idempotent:
  assumes "sortThread opt items = Some (Inr res)"
  shows "populateAll opt [0..<length res] res = Some (Inr res) \<and> sortThread opt res = Some (Inr res)"
proof -
  from assms obtain r where r: "populateAll opt [0..<length items] items = Some r"
    and res: "(case r of Inl e \<Rightarrow> Some (Inl e) | Inr items' \<Rightarrow> Some (Inr (sort_cmp compareThread items'))) = Some (Inr res)"
    by (auto simp: sortThread_def bind_eq_Some_conv)
  from populateAll_keeps [OF r] obtain items' where
    i': "r = Inr items'" "keeps items items'"
      "\<forall>c\<in>set [0..<length items]. c < length items \<longrightarrow> item_order (items' ! c) \<noteq> None" by blast
  from res i'(1) have res_eq: "res = sort_cmp compareThread items'" by simp
  have keyed': "\<forall>x\<in>set items'. item_order x \<noteq> None"
    by (rule keeps_all_keyed [OF i'(2,3)])
  then have keyed: "\<forall>x\<in>set res. item_order x \<noteq> None"
    by (simp add: res_eq set_sort_cmp)
  then have "\<forall>c\<in>set [0..<length res]. item_order (res ! c) \<noteq> None" by simp
  then have pass: "populateAll opt [0..<length res] res = Some (Inr res)"
    by (rule populateAll_keyed_noop)
  have "sort_cmp compareThread res = res"
    unfolding res_eq by (rule sorted_sort_compareThread [OF keyed'])
  with pass show ?thesis by (simp add: sortThread_def)
qed

theorem sortThread_idempotent_witness:
  "sortThread defaults
     [\<lparr>item_id = ''1'', item_parent = None, item_order = None\<rparr>,
      \<lparr>item_id = ''2'', item_parent = Some ''3'', item_order = None\<rparr>,
      \<lparr>item_id = ''3'', item_parent = Some ''1'', item_order = None\<rparr>]
   = Some (Inr
     [\<lparr>item_id = ''1'', item_parent = None, item_order = Some ''00.''\<rparr>,
      \<lparr>item_id = ''3'', item_parent = Some ''1'', item_order = Some ''00/00.''\<rparr>,
      \<lparr>item_id = ''2'', item_parent = Some ''3'', item_order = Some ''00/00/00.''\<rparr>])
   \<and> sortThread defaults
     [\<lparr>item_id = ''1'', item_parent = None, item_order = Some ''00.''\<rparr>,
      \<lparr>item_id = ''3'', item_parent = Some ''1'', item_order = Some ''00/00.''\<rparr>,
      \<lparr>item_id = ''2'', item_parent = Some ''3'', item_order = Some ''00/00/00.''\<rparr>]
   = Some (Inr
     [\<lparr>item_id = ''1'', item_parent = None, item_order = Some ''00.''\<rparr>,
      \<lparr>item_id = ''3'', item_parent = Some ''1'', item_order = Some ''00/00.''\<rparr>,
      \<lparr>item_id = ''2'', item_parent = Some ''3'', item_order = Some ''00/00/00.''\<rparr>])"
proof -
  have h: "sortThread defaults
     [\<lparr>item_id = ''1'', item_parent = None, item_order = None\<rparr>,
      \<lparr>item_id = ''2'', item_parent = Some ''3'', item_order = None\<rparr>,
      \<lparr>item_id = ''3'', item_parent = Some ''1'', item_order = None\<rparr>]
   = Some (Inr
     [\<lparr>item_id = ''1'', item_parent = None, item_order = Some ''00.''\<rparr>,
      \<lparr>item_id = ''3'', item_parent = Some ''1'', item_order = Some ''00/00.''\<rparr>,
      \<lparr>item_id = ''2'', item_parent = Some ''3'', item_order = Some ''00/00/00.''\<rparr>])"
    by code_simp
  from sortThread_idempotent [OF h] h show ?thesis by simp
qed

text \<open>
  C8.  The branch that throws \<open>Comment parent not found\<close> is dead.  The lookup of the
  child branch (line 58) finds an object exactly when the lookup of the root test
  (line 46) does, on the same collection; so no call of \<open>populateThreadForItem\<close> and
  no call of \<open>sortThread\<close> ends in that error.
\<close>

theorem parent_lookup_never_fails:
  "(find_js (\<lambda>i. item_id i = pid) items = None) = (findIndex (\<lambda>i. item_id i = pid) items = None)
   \<and> populateThreadForItem opt items c \<noteq> Some (Inl CommentParentNotFound)
   \<and> sortThread opt items \<noteq> Some (Inl CommentParentNotFound)"
  by (simp add: find_js_None findIndex_None populate_no_throw sortThread_no_throw)






text \<open>
  C9, as amended.  \<open>formatThread\<close> returns the lines of the objects in the order of
  the array, joined by newlines.  The line of an object is \<open>2 * depth\<close> spaces, then
  \<open> - item \<close>, the id and a space, then the parent clause; \<open>depth\<close> is the number of
  segments of the thread less one, and 0 without a thread.  The parent clause is
  left out exactly when the \<open>parent\<close> field is absent or is the empty string.
  \<open>formatThread\<close> is a function of the array to a string and writes to no object.
\<close>

theorem formatThread_lines:
  "formatThread items =
     join_js [CHR 0x0A]
       (map (\<lambda>i. replicate (2 * depth i) CHR '' '' @ '' - item '' @ item_id i @ '' '' @
               (case item_parent i of
                  None \<Rightarrow> []
                | Some p \<Rightarrow> if p = [] then [] else ''(parent '' @ p @ '')''))
          items)"
proof -
  have rep: "concat (replicate n ''  '') = replicate (2 * n) CHR '' ''" for n
    by (induction n) simp_all
  have "formatLine = (\<lambda>i. replicate (2 * depth i) CHR '' '' @ '' - item '' @ item_id i @ '' '' @
      (case item_parent i of None \<Rightarrow> [] | Some p \<Rightarrow> if p = [] then [] else ''(parent '' @ p @ '')''))"
    by (rule ext)
      (simp add: formatLine_def depth_def rep split_js_length truthy_def string_of_def
        split: option.splits)
  then show ?thesis by (simp only: formatThread_def)
qed

text \<open>
  The claim as stated leaves the clause out only when the field is absent.  The object
  below has a \<open>parent\<close> field, the empty string, and its line has no parent clause.
\<close>

theorem formatThread_empty_parent_counterexample:
  "item_parent \<lparr>item_id = ''2'', item_parent = Some [], item_order = Some ''00/00.''\<rparr> \<noteq> None
   \<and> formatThread [\<lparr>item_id = ''2'', item_parent = Some [], item_order = Some ''00/00.''\<rparr>]
       = ''   - item 2 ''"
  by code_simp



text \<open>
  C4, as amended.  When \<open>sortThread\<close> (default options) has returned, take any object
  that had no thread on input and whose \<open>parent\<close> is the id of an object of the
  collection.  The thread of the parent object without its end-of-record marker, then
  the delimiter, is a proper prefix of the thread of the object without its marker,
  and the thread of the object is above the thread of the parent in the order of the
  strings.  The objects are those of the collection after the keying pass, at their
  positions of the input; the returned array holds the same objects, sorted.
\<close>

theorem new_child_thread_under_parent:
  assumes "sortThread defaults items = Some (Inr res)"
  shows "\<exists>items'. populateAll defaults [0..<length items] items = Some (Inr items')
      \<and> res = sort_cmp compareThread items'
      \<and> (\<forall>c p. c < length items \<and> item_order (items ! c) = None \<and> parentIndex items c = Some p
            \<longrightarrow> strict_prefix (withoutEor (thread (items' ! p)) @ ''/'') (withoutEor (thread (items' ! c)))
              \<and> thread (items' ! p) < thread (items' ! c))"
proof -
  from sortThread_result [OF assms] obtain items' where
    i': "populateAll defaults [0..<length items] items = Some (Inr items')" "keeps items items'"
      "\<forall>x\<in>set items'. item_order x \<noteq> None" "res = sort_cmp compareThread items'" by blast
  from populateAll_newUnderParent [OF i'(1) _ keeps_refl newUnderParent_refl]
  have n: "newUnderParent items items'" by simp
  have len: "length items' = length items" using i'(2) by (simp add: keeps_def)
  have "strict_prefix (withoutEor (thread (items' ! p)) @ ''/'') (withoutEor (thread (items' ! c)))
      \<and> thread (items' ! p) < thread (items' ! c)"
    if h: "c < length items \<and> item_order (items ! c) = None \<and> parentIndex items c = Some p" for c p
  proof -
    from h i'(3) len have "item_order (items' ! c) \<noteq> None" by simp
    with n h have "underParent (thread (items' ! p)) (thread (items' ! c))"
      unfolding newUnderParent_def by blast
    then show ?thesis by (simp add: underParent_def)
  qed
  with i'(1,4) show ?thesis by blast
qed

theorem new_child_thread_under_parent_witness:
  "\<exists>items'. populateAll defaults [0..<3]
       [\<lparr>item_id = ''1'', item_parent = None, item_order = None\<rparr>,
        \<lparr>item_id = ''2'', item_parent = Some ''3'', item_order = None\<rparr>,
        \<lparr>item_id = ''3'', item_parent = Some ''1'', item_order = None\<rparr>] = Some (Inr items')
     \<and> strict_prefix (withoutEor (thread (items' ! 2)) @ ''/'') (withoutEor (thread (items' ! 1)))
     \<and> thread (items' ! 2) < thread (items' ! 1)"
proof -
  let ?items = "[\<lparr>item_id = ''1'', item_parent = None, item_order = None\<rparr>,
        \<lparr>item_id = ''2'', item_parent = Some ''3'', item_order = None\<rparr>,
        \<lparr>item_id = ''3'', item_parent = Some ''1'', item_order = None\<rparr>]"
  have h: "sortThread defaults ?items = Some (Inr
     [\<lparr>item_id = ''1'', item_parent = None, item_order = Some ''00.''\<rparr>,
      \<lparr>item_id = ''3'', item_parent = Some ''1'', item_order = Some ''00/00.''\<rparr>,
      \<lparr>item_id = ''2'', item_parent = Some ''3'', item_order = Some ''00/00/00.''\<rparr>])"
    by code_simp
  have c: "1 < length ?items \<and> item_order (?items ! 1) = None \<and> parentIndex ?items 1 = Some 2"
    by (simp add: parentIndex_def)
  have l: "length ?items = 3" by simp
  from new_child_thread_under_parent [OF h] obtain items' where
    i: "populateAll defaults [0..<length ?items] ?items = Some (Inr items')"
    and a: "\<forall>c p. c < length ?items \<and> item_order (?items ! c) = None \<and> parentIndex ?items c = Some p
            \<longrightarrow> strict_prefix (withoutEor (thread (items' ! p)) @ ''/'') (withoutEor (thread (items' ! c)))
              \<and> thread (items' ! p) < thread (items' ! c)"
    by blast
  from a c have "strict_prefix (withoutEor (thread (items' ! 2)) @ ''/'') (withoutEor (thread (items' ! 1)))
      \<and> thread (items' ! 2) < thread (items' ! 1)" by blast
  with i [unfolded l] show ?thesis by blast
qed

text \<open>
  The claim as stated speaks of every object with a parent in the collection.  An
  object that arrives with a thread keeps it: below, the child keeps \<open>00.\<close> and its
  parent is given \<open>01.\<close>, which is neither a prefix of the child's thread nor below it.
\<close>

theorem keyed_child_counterexample:
  "sortThread defaults
     [\<lparr>item_id = ''1'', item_parent = None, item_order = None\<rparr>,
      \<lparr>item_id = ''2'', item_parent = Some ''1'', item_order = Some ''00.''\<rparr>]
   = Some (Inr
     [\<lparr>item_id = ''2'', item_parent = Some ''1'', item_order = Some ''00.''\<rparr>,
      \<lparr>item_id = ''1'', item_parent = None, item_order = Some ''01.''\<rparr>])
   \<and> \<not> strict_prefix (withoutEor ''01.'' @ ''/'') (withoutEor ''00.'')
   \<and> \<not> ''01.'' < ''00.''"
proof -
  have "sortThread defaults
     [\<lparr>item_id = ''1'', item_parent = None, item_order = None\<rparr>,
      \<lparr>item_id = ''2'', item_parent = Some ''1'', item_order = Some ''00.''\<rparr>]
   = Some (Inr
     [\<lparr>item_id = ''2'', item_parent = Some ''1'', item_order = Some ''00.''\<rparr>,
      \<lparr>item_id = ''1'', item_parent = None, item_order = Some ''01.''\<rparr>])"
    by code_simp
  moreover have "\<not> strict_prefix (withoutEor ''01.'' @ ''/'') (withoutEor ''00.'')"
    by (simp add: withoutEor_def)
  moreover have "\<not> ''01.'' < ''00.''" by simp
  ultimately show ?thesis by blast
qed

end
